theory Spec2Isabelle
  imports Complex_Main "HOL-Library.Word" "HOL-Library.Multiset"
begin

unbundle bit_operations_syntax

section \<open>Common conventions\<close>

text \<open>
  The development embeds the n-gram profile, the diff-string, the successor update of the
  operator framework, the h(n) evaluation and the OPEN list of the A* engine.

  \<^item> \<open>std::size_t\<close> is \<open>64 word\<close>, \<open>NgramProfile::Ngram\<close> (\<open>std::uint32_t\<close>) is
    \<open>32 word\<close>; \<open>+\<close> and \<open>-\<close> on them wrap as the unsigned C++ arithmetic does.
  \<^item> A signed \<open>int\<close> delta is an \<open>int\<close>; adding it to a \<open>std::size_t\<close> converts it
    modulo \<open>2 ^ 64\<close>, which is \<open>word_of_int\<close>.
  \<^item> \<open>assert\<close> is modelled as compiled in: a failed assertion is the value
    \<open>Inl AssertionFailed\<close>. The heuristic evaluation takes a flag for it, since what it
    does without the assertion matters there.
  \<^item> Objects reached through a \<open>std::shared_ptr\<close> that several owners can see live in an
    explicit store; the owner holds an address.
\<close>

datatype error = AssertionFailed | OutOfRange | EmptyContainer | UninitializedOptional

section \<open>N-gram profile (util/NgramProfile.hpp, util/NgramProfile.cpp)\<close>

type_synonym Ngram = "32 word"
type_synonym NgramPair = "Ngram \<times> 64 word"
type_synonym NgramUpdate = "Ngram \<times> int"

text \<open>
  \<open>NgramMap\<close> is \<open>std::map<Ngram, std::size_t>\<close>: its entries in ascending key order.
  \<open>map_of m k\<close> is \<open>m.find(k)\<close>; \<open>map_at\<close> reads \<open>m[k]\<close> (a missing key is
  value-initialised to 0); \<open>map_assign\<close> is \<open>m[k] = v\<close>; \<open>map_erase\<close> is \<open>m.erase(k)\<close>.
\<close>

type_synonym NgramMap = "NgramPair list"

definition map_at :: "NgramMap \<Rightarrow> Ngram \<Rightarrow> 64 word" where
  "map_at m k = (case map_of m k of None \<Rightarrow> 0 | Some v \<Rightarrow> v)"

fun map_assign :: "NgramMap \<Rightarrow> Ngram \<Rightarrow> 64 word \<Rightarrow> NgramMap" where
  "map_assign [] k v = [(k, v)]"
| "map_assign ((k', v') # m) k v =
     (if k < k' then (k, v) # (k', v') # m
      else if k = k' then (k, v) # m
      else (k', v') # map_assign m k v)"

definition map_erase :: "NgramMap \<Rightarrow> Ngram \<Rightarrow> NgramMap" where
  "map_erase m k = filter (\<lambda>e. fst e \<noteq> k) m"

text \<open>
  The base maps are shared between profiles through \<open>std::shared_ptr<NgramMap>\<close>. The
  store \<open>NgramHeap\<close> holds every base map ever allocated; \<open>std::make_shared\<close> appends a
  cell and returns its index. A profile whose \<open>m_ngrams\<close> is null (default constructed
  and never generated or loaded) is not represented: every operation below dereferences
  the pointer.
\<close>

type_synonym NgramHeap = "NgramMap list"

record NgramProfile =
  m_n :: "64 word"
  m_size :: "64 word"
  m_ngrams :: nat
  m_updates :: NgramMap
  m_lastNgramUpdates :: "NgramUpdate list"

definition ORDER :: nat where
  "ORDER = 3"

definition n_of :: "NgramProfile \<Rightarrow> 64 word" where
  "n_of p = m_n p"

definition size_of :: "NgramProfile \<Rightarrow> 64 word" where
  "size_of p = m_size p"

definition freq :: "NgramHeap \<Rightarrow> NgramProfile \<Rightarrow> Ngram \<Rightarrow> 64 word" where
  "freq h p ngram =
     (case map_of (m_updates p) ngram of
        Some v \<Rightarrow> v
      | None \<Rightarrow> (case map_of (h ! m_ngrams p) ngram of Some v \<Rightarrow> v | None \<Rightarrow> 0))"

subsection \<open>apply\<close>

fun apply_loop :: "NgramMap \<Rightarrow> NgramMap \<Rightarrow> NgramMap" where
  "apply_loop m [] = m"
| "apply_loop m (ngramPair # rest) =
     (if snd ngramPair = 0 then apply_loop (map_erase m (fst ngramPair)) rest
      else apply_loop (map_assign m (fst ngramPair) (snd ngramPair)) rest)"

definition apply_profile :: "NgramHeap \<Rightarrow> NgramProfile \<Rightarrow> NgramHeap \<times> NgramProfile" where
  "apply_profile h p =
     (let tmp = h ! m_ngrams p
      in (h @ [apply_loop tmp (m_updates p)],
          p\<lparr>m_ngrams := length h, m_updates := []\<rparr>))"

subsection \<open>update\<close>

text \<open>
  One iteration of the loop of \<open>NgramProfile::update\<close>. \<open>updateVal\<close> has the type of
  \<open>m_updates[..] += update.second\<close>, which is \<open>std::size_t\<close>: the assertion
  \<open>updateVal >= 0\<close> compares an unsigned value with zero.
\<close>

definition update_step :: "NgramMap \<Rightarrow> NgramProfile \<Rightarrow> NgramUpdate \<Rightarrow> error + NgramProfile" where
  "update_step base p u =
     (let ngramPos = map_of base (fst u);
          seeded = (case ngramPos of
                      Some c \<Rightarrow> (if map_of (m_updates p) (fst u) = None
                                 then map_assign (m_updates p) (fst u) c else m_updates p)
                    | None \<Rightarrow> m_updates p);
          updateVal = map_at seeded (fst u) + word_of_int (snd u);
          p1 = p\<lparr>m_updates := map_assign seeded (fst u) updateVal\<rparr>
      in if \<not> (0 \<le> updateVal) then Inl AssertionFailed
         else if ngramPos = None \<and> updateVal \<noteq> 0 then
           Inr (p1\<lparr>m_size := m_size p1 + 1,
                    m_n := m_n p1 + word_of_int (snd u),
                    m_lastNgramUpdates := m_lastNgramUpdates p1 @ [u]\<rparr>)
         else if ngramPos \<noteq> None \<and> updateVal = 0 then
           (if \<not> (0 < m_size p1) then Inl AssertionFailed
            else Inr (p1\<lparr>m_size := m_size p1 - 1,
                          m_n := m_n p1 + word_of_int (snd u),
                          m_lastNgramUpdates := m_lastNgramUpdates p1 @ [u]\<rparr>))
         else Inr (p1\<lparr>m_n := m_n p1 + word_of_int (snd u),
                       m_lastNgramUpdates := m_lastNgramUpdates p1 @ [u]\<rparr>))"

fun update_loop :: "NgramMap \<Rightarrow> NgramProfile \<Rightarrow> NgramUpdate list \<Rightarrow> error + NgramProfile" where
  "update_loop base p [] = Inr p"
| "update_loop base p (u # us) =
     (case update_step base p u of
        Inl e \<Rightarrow> Inl e
      | Inr p' \<Rightarrow> update_loop base p' us)"

definition update :: "NgramHeap \<Rightarrow> NgramProfile \<Rightarrow> NgramUpdate list \<Rightarrow> error + NgramHeap \<times> NgramProfile" where
  "update h p updates =
     (case update_loop (h ! m_ngrams p) (p\<lparr>m_lastNgramUpdates := []\<rparr>) updates of
        Inl e \<Rightarrow> Inl e
      | Inr p' \<Rightarrow>
          if \<not> (0 \<le> m_n p') then Inl AssertionFailed
          else if \<not> (0 \<le> m_size p') then Inl AssertionFailed
          else if 150 < length (m_updates p') then Inr (apply_profile h p')
          else Inr (h, p'))"

subsection \<open>n-grams of a string range\<close>

text \<open>
  \<open>char2Ngram\<close> reinterprets a buffer of \<open>sizeof(Ngram) = 4\<close> bytes as a
  \<open>std::uint32_t\<close>; on the little-endian targets of the program the first byte is the
  least significant one.
\<close>

fun char2Ngram :: "char list \<Rightarrow> Ngram" where
  "char2Ngram (b0 # b1 # b2 # b3 # _) =
     of_char b0 + push_bit 8 (of_char b1) + push_bit 16 (of_char b2) + push_bit 24 (of_char b3)"
| "char2Ngram _ = 0"

definition ngramFromStringRange :: "string \<Rightarrow> error + Ngram" where
  "ngramFromStringRange s =
     (if length s \<noteq> ORDER then Inl AssertionFailed
      else Inr (char2Ngram (map (\<lambda>c. if c = CHR 0x0A then CHR '' '' else c) (s @ [CHR 0x00]))))"

fun ngrams_windows :: "string \<Rightarrow> (error + Ngram) list" where
  "ngrams_windows (c0 # c1 # c2 # rest) =
     ngramFromStringRange [c0, c1, c2] # ngrams_windows (c1 # c2 # rest)"
| "ngrams_windows _ = []"

fun collect :: "(error + 'a) list \<Rightarrow> error + 'a list" where
  "collect [] = Inr []"
| "collect (Inl e # _) = Inl e"
| "collect (Inr x # rest) = (case collect rest of Inl e \<Rightarrow> Inl e | Inr xs \<Rightarrow> Inr (x # xs))"

definition ngramsFromStringRange :: "string \<Rightarrow> error + Ngram list" where
  "ngramsFromStringRange s = (if length s < ORDER then Inr [] else collect (ngrams_windows s))"

definition updateFromStringRange ::
  "NgramHeap \<Rightarrow> NgramProfile \<Rightarrow> string \<Rightarrow> string \<Rightarrow> error + NgramHeap \<times> NgramProfile" where
  "updateFromStringRange h p oldRange newRange =
     (case ngramsFromStringRange oldRange of
        Inl e \<Rightarrow> Inl e
      | Inr oldNgrams \<Rightarrow>
          (case ngramsFromStringRange newRange of
             Inl e \<Rightarrow> Inl e
           | Inr newNgrams \<Rightarrow>
               update h p (map (\<lambda>ngram. (ngram, -1)) oldNgrams @ map (\<lambda>ngram. (ngram, 1)) newNgrams)))"

subsection \<open>generateFromString\<close>

definition SKIP_NORMALIZATION :: "32 word" where
  "SKIP_NORMALIZATION = 2"

definition STRIP_POS_ANNOTATIONS :: "32 word" where
  "STRIP_POS_ANNOTATIONS = 4"

text \<open>
  \<open>stripPosAnnotationsFromText\<close> and \<open>normalizeText\<close> are regular-expression passes of
  an external library over the text; they are the parameters \<open>stripPosAnnotations\<close>
  and \<open>normalizeText\<close> here.
  \<open>prepare_text\<close> is the text after the in-place passes the flags select.
\<close>

definition prepare_text :: "(string \<Rightarrow> string) \<Rightarrow> (string \<Rightarrow> string) \<Rightarrow> 32 word \<Rightarrow> string \<Rightarrow> string" where
  "prepare_text stripPosAnnotations normalizeText flags text =
     (let t1 = (if flags AND STRIP_POS_ANNOTATIONS \<noteq> 0 then stripPosAnnotations text else text)
      in if flags AND SKIP_NORMALIZATION = 0 then normalizeText t1 else t1)"

fun generate_loop :: "string \<Rightarrow> NgramMap \<Rightarrow> 64 word \<Rightarrow> NgramMap \<times> 64 word" where
  "generate_loop (c0 # c1 # c2 # rest) m n =
     (let ngram = char2Ngram [c0, c1, c2, CHR 0x00]
      in generate_loop (c1 # c2 # rest) (map_assign m ngram (map_at m ngram + 1)) (n + 1))"
| "generate_loop _ m n = (m, n)"

text \<open>
  The result is the return value, the lines written to \<open>std::cerr\<close>, and the store and
  profile after the call.
\<close>

definition generateFromString ::
  "(string \<Rightarrow> string) \<Rightarrow> (string \<Rightarrow> string) \<Rightarrow> NgramHeap \<Rightarrow> NgramProfile \<Rightarrow> string \<Rightarrow> 32 word
     \<Rightarrow> bool \<times> string list \<times> NgramHeap \<times> NgramProfile" where
  "generateFromString stripPosAnnotations normalizeText h p text flags =
     (let t = prepare_text stripPosAnnotations normalizeText flags text
      in if length t < ORDER then (False, [''Order must be smaller or equal text size''], h, p)
         else (let r = generate_loop t [] 0
               in (True, [], h @ [fst r],
                   \<lparr>m_n = snd r, m_size = of_nat (length (fst r)), m_ngrams = length h,
                    m_updates = [], m_lastNgramUpdates = []\<rparr>)))"

subsection \<open>clone\<close>

definition clone :: "NgramProfile \<Rightarrow> NgramProfile" where
  "clone p = \<lparr>m_n = m_n p, m_size = m_size p, m_ngrams = m_ngrams p,
              m_updates = m_updates p, m_lastNgramUpdates = []\<rparr>"

subsection \<open>Merged iteration\<close>

text \<open>
  An \<open>Iterator\<close> holds a cursor into the base map and one into the pending map; each is
  the list of entries from the cursor to the end of its map. \<open>advance\<close> is the body of
  the \<open>do\<close> loop of \<open>operator++\<close>: the second test reads \<open>ngramsIt\<close> after the first
  has moved it.
\<close>

type_synonym Iterator = "NgramMap \<times> NgramMap"

definition begin_it :: "NgramHeap \<Rightarrow> NgramProfile \<Rightarrow> Iterator" where
  "begin_it h p = (h ! m_ngrams p, m_updates p)"

definition end_it :: "Iterator" where
  "end_it = ([], [])"

definition advance :: "Iterator \<Rightarrow> Iterator" where
  "advance it =
     (let ngramsVal = (case fst it of [] \<Rightarrow> (- 1) | e # _ \<Rightarrow> fst e);
          updatesVal = (case snd it of [] \<Rightarrow> (- 1) | e # _ \<Rightarrow> fst e);
          ngramsIt = (if fst it \<noteq> [] \<and> (ngramsVal \<le> updatesVal \<or> snd it = [])
                      then tl (fst it) else fst it);
          updatesIt = (if snd it \<noteq> [] \<and> (updatesVal \<le> ngramsVal \<or> ngramsIt = [])
                       then tl (snd it) else snd it)
      in (ngramsIt, updatesIt))"

fun skip_again :: "Iterator \<Rightarrow> bool" where
  "skip_again (n # _, u # _) = (fst u = fst n \<and> snd u = 0)"
| "skip_again _ = False"

lemma advance_shrinks:
  "skip_again (advance it) \<Longrightarrow>
   length (fst (advance it)) + length (snd (advance it)) < length (fst it) + length (snd it)"
  by (cases it; cases "fst it"; cases "snd it") (auto simp: advance_def Let_def split: if_splits)

function increment :: "Iterator \<Rightarrow> Iterator" where
  "increment it = (let it' = advance it in if skip_again it' then increment it' else it')"
  by pat_completeness auto
termination
  by (relation "measure (\<lambda>it. length (fst it) + length (snd it))") (auto dest: advance_shrinks)

text \<open>
  \<open>operator*\<close>. With the base cursor at the end, the comparison of the two keys reads
  the key of \<open>end()\<close>; whatever it reads, the disjunct \<open>ngramsIt == ngramsEnd\<close> decides.
\<close>

definition deref :: "Iterator \<Rightarrow> error + NgramPair" where
  "deref it =
     (case snd it of
        u # _ \<Rightarrow>
          (case fst it of
             [] \<Rightarrow> Inr u
           | e # _ \<Rightarrow> if fst u \<le> fst e then Inr u else Inr e)
      | [] \<Rightarrow> (case fst it of [] \<Rightarrow> Inl AssertionFailed | e # _ \<Rightarrow> Inr e))"

text \<open>
  The range-based \<open>for\<close> loop over a profile, from \<open>begin()\<close> until the iterator
  compares equal to \<open>end()\<close>, collecting what \<open>operator*\<close> returns.
\<close>

lemma advance_le:
  "length (fst (advance it)) + length (snd (advance it)) \<le> length (fst it) + length (snd it)"
  by (cases it; cases "fst it"; cases "snd it") (auto simp: advance_def Let_def)

lemma advance_less:
  "it \<noteq> end_it \<Longrightarrow>
   length (fst (advance it)) + length (snd (advance it)) < length (fst it) + length (snd it)"
  by (cases it; cases "fst it"; cases "snd it") (auto simp: advance_def Let_def end_it_def)

lemma increment_le_advance:
  "length (fst (increment it)) + length (snd (increment it))
     \<le> length (fst (advance it)) + length (snd (advance it))"
proof (induction it rule: increment.induct)
  case (1 it)
  show ?case
  proof (cases "skip_again (advance it)")
    case True
    have "length (fst (increment (advance it))) + length (snd (increment (advance it)))
            \<le> length (fst (advance (advance it))) + length (snd (advance (advance it)))"
      using 1 True by simp
    also have "\<dots> \<le> length (fst (advance it)) + length (snd (advance it))"
      by (rule advance_le)
    finally show ?thesis
      using True by (subst increment.simps) (simp add: Let_def)
  next
    case False
    then show ?thesis
      by (subst increment.simps) (simp add: Let_def)
  qed
qed

lemma increment_less:
  "it \<noteq> end_it \<Longrightarrow>
   length (fst (increment it)) + length (snd (increment it)) < length (fst it) + length (snd it)"
  using increment_le_advance [of it] advance_less [of it] by linarith

function iterate_from :: "Iterator \<Rightarrow> error + NgramPair list" where
  "iterate_from it =
     (if it = end_it then Inr []
      else (case deref it of
              Inl e \<Rightarrow> Inl e
            | Inr x \<Rightarrow> (case iterate_from (increment it) of
                          Inl e \<Rightarrow> Inl e
                        | Inr xs \<Rightarrow> Inr (x # xs))))"
  by pat_completeness auto
termination
  by (relation "measure (\<lambda>it. length (fst it) + length (snd it))") (auto dest: increment_less)

definition iterate :: "NgramHeap \<Rightarrow> NgramProfile \<Rightarrow> error + NgramPair list" where
  "iterate h p = iterate_from (begin_it h p)"

section \<open>Diff-string (util/DiffString.hpp, util/DiffString.cpp)\<close>

text \<open>
  \<open>MD5\<close> is the digest function of the external cryptographic library; it is the
  parameter \<open>md5\<close> of every operation that calls \<open>updateHash\<close>.

  A diff-string holds its source text through a \<open>std::shared_ptr<std::string>\<close>, and
  the constructor and the \<open>reset\<close> overload that take such a pointer keep the caller's
  buffer instead of copying it. The buffers therefore live in a store, a list of strings
  addressed by index, and \<open>m_sourceString\<close> is an address. \<open>std::make_shared\<close>
  appends a new cell to the store.
\<close>

type_synonym StringHeap = "string list"

record Edit =
  editPos :: "32 word"
  charsToDelete :: "8 word"
  insertion :: string

record DiffString =
  m_sourceString :: nat
  m_edits :: "Edit list"
  m_hashValue :: string

definition hashValue :: "DiffString \<Rightarrow> string" where
  "hashValue d = m_hashValue d"

definition updateHash :: "(string \<Rightarrow> string) \<Rightarrow> DiffString \<Rightarrow> string \<Rightarrow> DiffString" where
  "updateHash md5 d text = d\<lparr>m_hashValue := md5 text\<rparr>"

text \<open>
  The loop of \<open>DiffString::string\<close>. The sum \<open>editPos + charsToDelete\<close> of the assertion
  is computed in \<open>unsigned int\<close>; \<open>erase\<close> followed by \<open>insert\<close> at the same position
  replaces the erased characters by the insertion.
\<close>

fun apply_edits :: "string \<Rightarrow> Edit list \<Rightarrow> error + string" where
  "apply_edits edited [] = Inr edited"
| "apply_edits edited (e # es) =
     (if \<not> (unat (editPos e) < length edited
             \<and> unat (editPos e + ucast (charsToDelete e)) \<le> length edited)
      then Inl AssertionFailed
      else apply_edits (take (unat (editPos e)) edited @ insertion e
                          @ drop (unat (editPos e) + unat (charsToDelete e)) edited) es)"

text \<open>\<open>string()\<close> reads the buffer as it is at the time of the call.\<close>

definition DiffString_string :: "StringHeap \<Rightarrow> DiffString \<Rightarrow> error + string" where
  "DiffString_string sh d = apply_edits (sh ! m_sourceString d) (m_edits d)"

text \<open>
  \<open>reset(std::shared_ptr<std::string>)\<close> and the constructor
  \<open>DiffString(std::shared_ptr<std::string>)\<close>: the diff-string keeps the address it is
  given, and the hash is taken from what the buffer holds at that moment.
\<close>

definition DiffString_reset_ptr ::
  "(string \<Rightarrow> string) \<Rightarrow> StringHeap \<Rightarrow> DiffString \<Rightarrow> nat \<Rightarrow> DiffString" where
  "DiffString_reset_ptr md5 sh d newString =
     updateHash md5 (d\<lparr>m_sourceString := newString, m_edits := []\<rparr>) (sh ! newString)"

definition DiffString_of_ptr :: "(string \<Rightarrow> string) \<Rightarrow> StringHeap \<Rightarrow> nat \<Rightarrow> DiffString" where
  "DiffString_of_ptr md5 sh originalString =
     updateHash md5 \<lparr>m_sourceString = originalString, m_edits = [], m_hashValue = []\<rparr>
       (sh ! originalString)"

text \<open>\<open>std::make_shared<std::string>(s)\<close>: a new buffer holding a copy of \<open>s\<close>.\<close>

definition make_shared_string :: "StringHeap \<Rightarrow> string \<Rightarrow> StringHeap \<times> nat" where
  "make_shared_string sh s = (sh @ [s], length sh)"

text \<open>
  \<open>reset(std::string const&)\<close>, \<open>reset(std::string&&)\<close> and the two assignments from a
  string all call \<open>reset\<close> with a fresh buffer. So does the constructor
  \<open>DiffString(std::string const&)\<close>, on an object whose three members \<open>reset\<close> then
  assigns.
\<close>

definition DiffString_reset_string ::
  "(string \<Rightarrow> string) \<Rightarrow> StringHeap \<Rightarrow> DiffString \<Rightarrow> string \<Rightarrow> StringHeap \<times> DiffString" where
  "DiffString_reset_string md5 sh d newString =
     (case make_shared_string sh newString of
        (sh', a) \<Rightarrow> (sh', DiffString_reset_ptr md5 sh' d a))"

definition DiffString_of_string ::
  "(string \<Rightarrow> string) \<Rightarrow> StringHeap \<Rightarrow> string \<Rightarrow> StringHeap \<times> DiffString" where
  "DiffString_of_string md5 sh s =
     (case make_shared_string sh s of
        (sh', a) \<Rightarrow> (sh', DiffString_of_ptr md5 sh' a))"

definition DiffString_edit ::
  "(string \<Rightarrow> string) \<Rightarrow> StringHeap \<Rightarrow> DiffString \<Rightarrow> Edit \<Rightarrow> error + DiffString" where
  "DiffString_edit md5 sh d e =
     (let d1 = d\<lparr>m_edits := m_edits d @ [e]\<rparr>
      in case DiffString_string sh d1 of
           Inl err \<Rightarrow> Inl err
         | Inr text \<Rightarrow> Inr (updateHash md5 d1 text))"

definition DiffString_edit_text :: "(string \<Rightarrow> string) \<Rightarrow> DiffString \<Rightarrow> Edit \<Rightarrow> string \<Rightarrow> DiffString" where
  "DiffString_edit_text md5 d e text = updateHash md5 (d\<lparr>m_edits := m_edits d @ [e]\<rparr>) text"

text \<open>\<open>apply\<close> moves the materialised text into a fresh buffer and keeps the hash.\<close>

definition DiffString_apply :: "StringHeap \<Rightarrow> DiffString \<Rightarrow> error + StringHeap \<times> DiffString" where
  "DiffString_apply sh d =
     (case DiffString_string sh d of
        Inl err \<Rightarrow> Inl err
      | Inr text \<Rightarrow>
          (case make_shared_string sh text of
             (sh', a) \<Rightarrow> Inr (sh', d\<lparr>m_sourceString := a, m_edits := []\<rparr>)))"

text \<open>
  \<open>std::hash<DiffString>\<close> applies \<open>std::hash<std::string>\<close> (the parameter
  \<open>strhash\<close>) to the hash value.
\<close>

definition hash_DiffString :: "(string \<Rightarrow> 64 word) \<Rightarrow> DiffString \<Rightarrow> 64 word" where
  "hash_DiffString strhash d = strhash (hashValue d)"

text \<open>The operations that keep the hash themselves, as a command language.\<close>

datatype DiffOp = ResetPtr nat | ResetString string | Apply | EditOp Edit

fun diff_step ::
  "(string \<Rightarrow> string) \<Rightarrow> StringHeap \<Rightarrow> DiffString \<Rightarrow> DiffOp \<Rightarrow> error + StringHeap \<times> DiffString" where
  "diff_step md5 sh d (ResetPtr a) = Inr (sh, DiffString_reset_ptr md5 sh d a)"
| "diff_step md5 sh d (ResetString s) = Inr (DiffString_reset_string md5 sh d s)"
| "diff_step md5 sh d Apply = DiffString_apply sh d"
| "diff_step md5 sh d (EditOp e) =
     (case DiffString_edit md5 sh d e of Inl err \<Rightarrow> Inl err | Inr d' \<Rightarrow> Inr (sh, d'))"

fun diff_run ::
  "(string \<Rightarrow> string) \<Rightarrow> StringHeap \<Rightarrow> DiffString \<Rightarrow> DiffOp list \<Rightarrow> error + StringHeap \<times> DiffString" where
  "diff_run md5 sh d [] = Inr (sh, d)"
| "diff_run md5 sh d (x # xs) =
     (case diff_step md5 sh d x of
        Inl err \<Rightarrow> Inl err
      | Inr (sh', d') \<Rightarrow> diff_run md5 sh' d' xs)"

section \<open>State and the successor update (State.hpp, State.cpp, operators/ObfuscationOperator.cpp)\<close>

record StateMetaData =
  jsd :: "real option"

text \<open>
  A \<open>State\<close> holds its profile through a \<open>std::shared_ptr<NgramProfile>\<close>;
  \<open>updateSuccessor\<close> only ever mutates the fresh clone it creates, so the profile
  object is a field here. The base maps stay in the store.
\<close>

record State =
  m_text :: DiffString
  m_ngramProfile :: NgramProfile
  m_mutableMetaData :: StateMetaData

text \<open>
  \<open>State::setText(text, flags)\<close> receives the text as a shared pointer, here the
  address \<open>text\<close>. It builds the diff-string on that buffer, which takes the hash of
  the buffer's content; then \<open>generateFromString\<close>, given the same pointer, strips and
  normalises the buffer in place (\<open>prepare_text\<close>) and generates the profile; then the
  diff-string is moved into the state. The result is the lines written to \<open>std::cerr\<close>,
  the two stores and the state.
\<close>

definition setText ::
  "(string \<Rightarrow> string) \<Rightarrow> (string \<Rightarrow> string) \<Rightarrow> (string \<Rightarrow> string)
     \<Rightarrow> StringHeap \<Rightarrow> NgramHeap \<Rightarrow> State \<Rightarrow> nat \<Rightarrow> 32 word
     \<Rightarrow> string list \<times> StringHeap \<times> NgramHeap \<times> State" where
  "setText stripPosAnnotations normalizeText md5 sh h st text flags =
     (let diffStr = DiffString_of_ptr md5 sh text
      in case generateFromString stripPosAnnotations normalizeText h (m_ngramProfile st)
                (sh ! text) flags of
           (ok, cerr, h', p') \<Rightarrow>
             (cerr,
              sh[text := prepare_text stripPosAnnotations normalizeText flags (sh ! text)],
              h',
              st\<lparr>m_text := diffStr, m_ngramProfile := p'\<rparr>))"

record FocusPoint =
  ngramOffset :: nat
  focus_text :: string

text \<open>\<open>std::string::find\<close>: the first position where the needle occurs, if any.\<close>

fun str_find :: "string \<Rightarrow> string \<Rightarrow> nat option" where
  "str_find [] needle = (if needle = [] then Some 0 else None)"
| "str_find (c # cs) needle =
     (if take (length needle) (c # cs) = needle then Some 0
      else map_option Suc (str_find cs needle))"

definition substr :: "string \<Rightarrow> nat \<Rightarrow> nat \<Rightarrow> string" where
  "substr s b e = take (e - b) (drop b s)"

text \<open>
  The text after the proposed edit, and the window of it that \<open>updateSuccessor\<close>
  inspects: from \<open>ORDER\<close> characters before the edit position to \<open>ORDER\<close> characters
  behind the inserted string, cut at the ends of the text.
\<close>

definition edited_text :: "string \<Rightarrow> nat \<Rightarrow> nat \<Rightarrow> string \<Rightarrow> string" where
  "edited_text t editStart editEnd upd = take editStart t @ upd @ drop editEnd t"

definition window_begin :: "nat \<Rightarrow> nat" where
  "window_begin editStart = nat (max (int editStart - int ORDER) 0)"

definition window_end :: "string \<Rightarrow> nat \<Rightarrow> nat \<Rightarrow> nat" where
  "window_end t pos len = min (pos + len + ORDER) (length t)"

text \<open>
  \<open>editStart\<close> and \<open>editEnd\<close> are iterators into the focus point's text, modelled as
  offsets; \<open>editStart\<close> may lie behind \<open>editEnd\<close>, and then the characters between them
  occur twice in the new text. A focus n-gram or an edit position outside the text is
  undefined behaviour in the source, and so is an old window that ends before it begins
  (\<open>editStart > editEnd + 2 * ORDER\<close>), on which the loop of \<open>ngramsFromStringRange\<close>
  runs off the text; the model returns \<open>Inl OutOfRange\<close> for them, at the place where
  the source meets them. The number of characters to delete is cast to \<open>uint8_t\<close> and
  the position to \<open>uint32_t\<close>: \<open>of_nat\<close> into the word type truncates in the same way.
\<close>

definition updateSuccessor ::
  "(string \<Rightarrow> string) \<Rightarrow> NgramHeap \<Rightarrow> State \<Rightarrow> State \<Rightarrow> FocusPoint \<Rightarrow> nat \<Rightarrow> nat \<Rightarrow> string
     \<Rightarrow> error + bool \<times> NgramHeap \<times> State" where
  "updateSuccessor md5 h origState successor focusPoint editStart editEnd upd =
     (let t = focus_text focusPoint
      in if \<not> (ngramOffset focusPoint + ORDER \<le> length t
                \<and> editStart \<le> length t \<and> editEnd \<le> length t)
         then Inl OutOfRange
         else
           (let origNgram = substr t (ngramOffset focusPoint) (ngramOffset focusPoint + ORDER);
                newText = edited_text t editStart editEnd upd;
                newBegin = window_begin editStart;
                newEnd = window_end newText editStart (length upd)
            in if str_find (substr newText newBegin newEnd) origNgram \<noteq> None
               then Inr (False, h, successor)
               else
                 (let oldBegin = window_begin editStart;
                      oldEnd = window_end t editEnd 0
                  in if oldEnd < oldBegin then Inl OutOfRange
                     else
                       (case updateFromStringRange h (clone (m_ngramProfile origState))
                               (substr t oldBegin oldEnd) (substr newText newBegin newEnd) of
                          Inl err \<Rightarrow> Inl err
                        | Inr (h', newProfile) \<Rightarrow>
                            (let newDiff = DiffString_edit_text md5 (m_text origState)
                                   \<lparr>editPos = of_nat oldBegin,
                                    charsToDelete = of_nat (oldEnd - oldBegin),
                                    insertion = substr newText newBegin newEnd\<rparr> newText
                             in Inr (True, h', successor\<lparr>m_text := newDiff,
                                                        m_ngramProfile := newProfile\<rparr>))))))"

section \<open>Heuristic evaluation (Context.hpp, ComputeCostH.cpp)\<close>

text \<open>
  \<open>double\<close> and \<open>float\<close> values are idealised as real numbers: rounding and infinities
  are not modelled. The one NaN that the arithmetic of \<open>ComputeCostH\<close> can produce from
  real arguments, \<open>std::sqrt\<close> of a negative number, is modelled: a \<open>double\<close> that may
  be NaN is a \<open>real option\<close>, \<open>None\<close> for NaN. Subtraction propagates NaN, and
  \<open>std::max(a, b)\<close>, which is \<open>(a < b) ? b : a\<close>, returns \<open>a\<close> when \<open>b\<close> is NaN, as
  every comparison with NaN is false.
\<close>

definition sqrt_double :: "real \<Rightarrow> real option" where
  "sqrt_double x = (if x < 0 then None else Some (sqrt x))"

definition minus_double :: "real option \<Rightarrow> real option \<Rightarrow> real option" where
  "minus_double a b =
     (case a of
        None \<Rightarrow> None
      | Some x \<Rightarrow> (case b of None \<Rightarrow> None | Some y \<Rightarrow> Some (x - y)))"

definition max_double :: "real \<Rightarrow> real option \<Rightarrow> real" where
  "max_double a b = (case b of None \<Rightarrow> a | Some y \<Rightarrow> if a < y then y else a)"

text \<open>
  The divergence itself is computed by \<open>calculateJsd\<close> in floating point with
  compensated summation; its result is the parameter \<open>jsdv\<close>, and \<open>g\<close> is
  \<open>node.costG()\<close>. The flag \<open>asserts\<close>
  tells whether \<open>assert\<close> is compiled in (no \<open>NDEBUG\<close>). The result is the lines
  written to \<open>std::cerr\<close> (message and printed number) and either a failure or the value
  returned together with the state's and the context's metadata after the call.
\<close>

record ContextMetaData =
  originalTextLength :: "64 word option"
  originalJsd :: "real option"
  goalJSDist :: "real option"

definition ComputeCostH ::
  "bool \<Rightarrow> real \<Rightarrow> real \<Rightarrow> StateMetaData \<Rightarrow> ContextMetaData
     \<Rightarrow> (string \<times> real) list \<times> (error + real \<times> StateMetaData \<times> ContextMetaData)" where
  "ComputeCostH asserts jsdv g sm cm =
     (let cerr = (if jsdv > 1 then [(''ERROR: Numerical underflow, jsd = '', jsdv)] else [])
      in if asserts \<and> \<not> (jsdv \<le> 1) then (cerr, Inl AssertionFailed)
         else
           (let sm' = sm\<lparr>jsd := Some jsdv\<rparr>;
                origJsd = (case originalJsd cm of
                             None \<Rightarrow> max 0 (jsdv - 1 / 10 ^ 10)
                           | Some v \<Rightarrow> v);
                cm' = (case originalJsd cm of
                         None \<Rightarrow> cm\<lparr>originalJsd := Some origJsd\<rparr>
                       | Some v \<Rightarrow> cm)
            in case goalJSDist cm' of
                 None \<Rightarrow> (cerr, Inl UninitializedOptional)
               | Some goal \<Rightarrow>
                   (let jsDistance = sqrt_double (2 * jsdv);
                        p = g / max_double (1 / 10 ^ 6)
                                  (minus_double jsDistance (sqrt_double (2 * origJsd)));
                        r = max_double 0 (minus_double (Some goal) jsDistance);
                        h = r * p
                    in (cerr, Inr (h, sm', cm')))))"

section \<open>OPEN list (search/generic/Node.hpp, search/generic/OpenList.hpp)\<close>

text \<open>
  Nodes are held through \<open>std::shared_ptr<Node<State>>\<close>: the heap vector and the hash
  map of an OPEN list hold the same pointers, and \<open>pushOrUpdate\<close> assigns through one
  of them. The nodes therefore live in a store \<open>nat \<Rightarrow> 's Node\<close>, and the containers
  hold addresses. The costs are \<open>float\<close>s, idealised as reals.
\<close>

record 's Node =
  state :: 's
  costG :: real
  costH :: real
  opcode :: "8 word"
  parent :: "nat option"

definition costF :: "'s Node \<Rightarrow> real" where
  "costF node = costG node + costH node"

record OpenList =
  nodes_heap :: "nat list"
  nodes_map :: "string \<rightharpoonup> nat"

definition empty_open :: OpenList where
  "empty_open = \<lparr>nodes_heap = [], nodes_map = Map.empty\<rparr>"

definition HigherCost :: "(nat \<Rightarrow> 's Node) \<Rightarrow> nat \<Rightarrow> nat \<Rightarrow> bool" where
  "HigherCost st lhs rhs = (costF (st lhs) > costF (st rhs))"

text \<open>
  \<open>std::push_heap\<close>, \<open>std::pop_heap\<close> and \<open>std::make_heap\<close> belong to the standard
  library. They are the parameters \<open>push_heap\<close>, \<open>pop_heap\<close> and \<open>make_heap\<close>, taking
  the comparison and the vector; what the C++ standard guarantees of them is written
  down as \<open>push_heap_spec\<close>, \<open>pop_heap_spec\<close> and \<open>make_heap_spec\<close>.
\<close>

definition OpenList_pop ::
  "((nat \<Rightarrow> nat \<Rightarrow> bool) \<Rightarrow> nat list \<Rightarrow> nat list) \<Rightarrow> ('s \<Rightarrow> string) \<Rightarrow> (nat \<Rightarrow> 's Node) \<Rightarrow> OpenList
     \<Rightarrow> error + nat \<times> OpenList" where
  "OpenList_pop pop_heap compute_hash st ol =
     (if nodes_heap ol = [] then Inl EmptyContainer
      else (let v = pop_heap (HigherCost st) (nodes_heap ol);
                popped_node = last v
            in Inr (popped_node,
                    ol\<lparr>nodes_heap := butlast v,
                       nodes_map := (nodes_map ol)(compute_hash (state (st popped_node)) := None)\<rparr>)))"

definition pushOrUpdate ::
  "((nat \<Rightarrow> nat \<Rightarrow> bool) \<Rightarrow> nat list \<Rightarrow> nat list) \<Rightarrow> ((nat \<Rightarrow> nat \<Rightarrow> bool) \<Rightarrow> nat list \<Rightarrow> nat list)
     \<Rightarrow> ('s \<Rightarrow> string) \<Rightarrow> (nat \<Rightarrow> 's Node) \<Rightarrow> OpenList \<Rightarrow> nat
     \<Rightarrow> bool \<times> (nat \<Rightarrow> 's Node) \<times> OpenList" where
  "pushOrUpdate push_heap make_heap compute_hash st ol node =
     (let hashcode = compute_hash (state (st node))
      in case nodes_map ol hashcode of
           None \<Rightarrow>
             (True, st,
              ol\<lparr>nodes_map := (nodes_map ol)(hashcode \<mapsto> node),
                 nodes_heap := push_heap (HigherCost st) (nodes_heap ol @ [node])\<rparr>)
         | Some existing \<Rightarrow>
             if costG (st existing) > costG (st node)
             then (let st' = st(existing := st node)
                   in (False, st', ol\<lparr>nodes_heap := make_heap (HigherCost st') (nodes_heap ol)\<rparr>))
             else (False, st, ol))"

definition OpenList_contains :: "('s \<Rightarrow> string) \<Rightarrow> OpenList \<Rightarrow> 's \<Rightarrow> bool" where
  "OpenList_contains compute_hash ol s = (nodes_map ol (compute_hash s) \<noteq> None)"

datatype OpenOp = PushOrUpdate nat | Pop

fun open_step ::
  "((nat \<Rightarrow> nat \<Rightarrow> bool) \<Rightarrow> nat list \<Rightarrow> nat list) \<Rightarrow> ((nat \<Rightarrow> nat \<Rightarrow> bool) \<Rightarrow> nat list \<Rightarrow> nat list)
     \<Rightarrow> ((nat \<Rightarrow> nat \<Rightarrow> bool) \<Rightarrow> nat list \<Rightarrow> nat list) \<Rightarrow> ('s \<Rightarrow> string)
     \<Rightarrow> (nat \<Rightarrow> 's Node) \<times> OpenList \<Rightarrow> OpenOp \<Rightarrow> error + (nat \<Rightarrow> 's Node) \<times> OpenList" where
  "open_step push_heap pop_heap make_heap compute_hash (st, ol) (PushOrUpdate node) =
     Inr (snd (pushOrUpdate push_heap make_heap compute_hash st ol node))"
| "open_step push_heap pop_heap make_heap compute_hash (st, ol) Pop =
     (case OpenList_pop pop_heap compute_hash st ol of
        Inl e \<Rightarrow> Inl e
      | Inr (popped, ol') \<Rightarrow> Inr (st, ol'))"

fun open_run ::
  "((nat \<Rightarrow> nat \<Rightarrow> bool) \<Rightarrow> nat list \<Rightarrow> nat list) \<Rightarrow> ((nat \<Rightarrow> nat \<Rightarrow> bool) \<Rightarrow> nat list \<Rightarrow> nat list)
     \<Rightarrow> ((nat \<Rightarrow> nat \<Rightarrow> bool) \<Rightarrow> nat list \<Rightarrow> nat list) \<Rightarrow> ('s \<Rightarrow> string)
     \<Rightarrow> (nat \<Rightarrow> 's Node) \<times> OpenList \<Rightarrow> OpenOp list \<Rightarrow> error + (nat \<Rightarrow> 's Node) \<times> OpenList" where
  "open_run push_heap pop_heap make_heap compute_hash s [] = Inr s"
| "open_run push_heap pop_heap make_heap compute_hash s (x # xs) =
     (case open_step push_heap pop_heap make_heap compute_hash s x of
        Inl e \<Rightarrow> Inl e
      | Inr s' \<Rightarrow> open_run push_heap pop_heap make_heap compute_hash s' xs)"

text \<open>
  The contracts of the heap algorithms (C++ standard, [alg.heap.operations]), for a
  comparison that induces a strict weak ordering. \<open>is_heap cmp v\<close>: no element is
  \<open>cmp\<close>-smaller than its child at positions \<open>2 * i + 1\<close> and \<open>2 * i + 2\<close>.
\<close>

definition strict_weak_order :: "(nat \<Rightarrow> nat \<Rightarrow> bool) \<Rightarrow> bool" where
  "strict_weak_order cmp \<longleftrightarrow>
     (\<forall>a b. cmp a b \<longrightarrow> \<not> cmp b a) \<and> (\<forall>a b c. \<not> cmp a b \<and> \<not> cmp b c \<longrightarrow> \<not> cmp a c)"

definition is_heap :: "(nat \<Rightarrow> nat \<Rightarrow> bool) \<Rightarrow> nat list \<Rightarrow> bool" where
  "is_heap cmp v \<longleftrightarrow> (\<forall>i. 0 < i \<and> i < length v \<longrightarrow> \<not> cmp (v ! ((i - 1) div 2)) (v ! i))"

definition push_heap_spec :: "((nat \<Rightarrow> nat \<Rightarrow> bool) \<Rightarrow> nat list \<Rightarrow> nat list) \<Rightarrow> bool" where
  "push_heap_spec push_heap \<longleftrightarrow>
     (\<forall>cmp v. strict_weak_order cmp \<and> v \<noteq> [] \<and> is_heap cmp (butlast v) \<longrightarrow>
        is_heap cmp (push_heap cmp v) \<and> mset (push_heap cmp v) = mset v)"

definition pop_heap_spec :: "((nat \<Rightarrow> nat \<Rightarrow> bool) \<Rightarrow> nat list \<Rightarrow> nat list) \<Rightarrow> bool" where
  "pop_heap_spec pop_heap \<longleftrightarrow>
     (\<forall>cmp v. strict_weak_order cmp \<and> v \<noteq> [] \<and> is_heap cmp v \<longrightarrow>
        pop_heap cmp v \<noteq> [] \<and> last (pop_heap cmp v) = hd v \<and>
        is_heap cmp (butlast (pop_heap cmp v)) \<and> mset (pop_heap cmp v) = mset v)"

definition make_heap_spec :: "((nat \<Rightarrow> nat \<Rightarrow> bool) \<Rightarrow> nat list \<Rightarrow> nat list) \<Rightarrow> bool" where
  "make_heap_spec make_heap \<longleftrightarrow>
     (\<forall>cmp v. strict_weak_order cmp \<longrightarrow>
        is_heap cmp (make_heap cmp v) \<and> mset (make_heap cmp v) = mset v)"

text \<open>
  One implementation that meets the contracts, used to run the model on concrete
  inputs: a vector sorted from the \<open>cmp\<close>-largest element on is a heap.
\<close>

fun insert_desc :: "(nat \<Rightarrow> nat \<Rightarrow> bool) \<Rightarrow> nat \<Rightarrow> nat list \<Rightarrow> nat list" where
  "insert_desc cmp x [] = [x]"
| "insert_desc cmp x (y # ys) = (if cmp x y then y # insert_desc cmp x ys else x # y # ys)"

definition sort_desc :: "(nat \<Rightarrow> nat \<Rightarrow> bool) \<Rightarrow> nat list \<Rightarrow> nat list" where
  "sort_desc cmp v = foldr (insert_desc cmp) v []"

definition pop_sorted :: "(nat \<Rightarrow> nat \<Rightarrow> bool) \<Rightarrow> nat list \<Rightarrow> nat list" where
  "pop_sorted cmp v = (case v of [] \<Rightarrow> [] | x # xs \<Rightarrow> sort_desc cmp xs @ [x])"

definition example_nodes :: "nat \<Rightarrow> string Node" where
  "example_nodes =
     (\<lambda>a. \<lparr>state = [], costG = 0, costH = 0, opcode = 0, parent = None\<rparr>)
       (0 := \<lparr>state = ''a'', costG = 3, costH = 0, opcode = 0, parent = None\<rparr>,
        1 := \<lparr>state = ''b'', costG = 1, costH = 1, opcode = 0, parent = None\<rparr>,
        2 := \<lparr>state = ''a'', costG = 2, costH = 0, opcode = 0, parent = None\<rparr>)"

section \<open>Reference model of a profile: one plain map\<close>

text \<open>
  The specification compares a profile with a single plain map to which every delta is
  applied entry by entry (\<open>m[k] += d\<close>), iterated in key order with the zero counts left
  out. These two definitions follow the specification's words, not the source.
\<close>

fun spec_plain_update :: "NgramMap \<Rightarrow> NgramUpdate list \<Rightarrow> NgramMap" where
  "spec_plain_update m [] = m"
| "spec_plain_update m (u # us) =
     spec_plain_update (map_assign m (fst u) (map_at m (fst u) + word_of_int (snd u))) us"

definition spec_plain_iteration :: "NgramMap \<Rightarrow> NgramPair list" where
  "spec_plain_iteration m = filter (\<lambda>e. snd e \<noteq> 0) m"

section \<open>Properties of the n-gram profile\<close>

text \<open>
  Claim C1. The merged iteration of a profile with pending updates is claimed to equal
  the iteration after \<open>apply()\<close> and the iteration of the plain reference map. The code
  does not do that: when \<open>operator++\<close> moves the base cursor to the end, its second test
  sees the moved cursor and moves the pending cursor too, so a pending n-gram that is
  larger than every n-gram of the base map is skipped. Here the profile of the text
  \<open>aaa\<close> receives \<open>update([(bbb, +1)])\<close>: before \<open>apply()\<close> the iteration yields only
  \<open>(aaa, 1)\<close>; after \<open>apply()\<close> it yields \<open>(aaa, 1), (bbb, 1)\<close>, as the reference map
  does.
\<close>

theorem iterate_drops_pending_entry_behind_base:
  "generateFromString id id []
     \<lparr>m_n = 0, m_size = 0, m_ngrams = 0, m_updates = [], m_lastNgramUpdates = []\<rparr>
     ''aaa'' SKIP_NORMALIZATION
   = (True, [], [[(6381921, 1)]],
      \<lparr>m_n = 1, m_size = 1, m_ngrams = 0, m_updates = [], m_lastNgramUpdates = []\<rparr>)
   \<and> char2Ngram [CHR ''b'', CHR ''b'', CHR ''b'', CHR 0x00] = 6447714
   \<and> update [[(6381921, 1)]]
        \<lparr>m_n = 1, m_size = 1, m_ngrams = 0, m_updates = [], m_lastNgramUpdates = []\<rparr>
        [(6447714, 1)]
      = Inr ([[(6381921, 1)]],
             \<lparr>m_n = 2, m_size = 2, m_ngrams = 0, m_updates = [(6447714, 1)],
              m_lastNgramUpdates = [(6447714, 1)]\<rparr>)
   \<and> iterate [[(6381921, 1)]]
        \<lparr>m_n = 2, m_size = 2, m_ngrams = 0, m_updates = [(6447714, 1)],
         m_lastNgramUpdates = [(6447714, 1)]\<rparr>
      = Inr [(6381921, 1)]
   \<and> (case apply_profile [[(6381921, 1)]]
               \<lparr>m_n = 2, m_size = 2, m_ngrams = 0, m_updates = [(6447714, 1)],
                m_lastNgramUpdates = [(6447714, 1)]\<rparr> of
         (h, p) \<Rightarrow> iterate h p)
      = Inr [(6381921, 1), (6447714, 1)]
   \<and> spec_plain_iteration (spec_plain_update [(6381921, 1)] [(6447714, 1)])
      = [(6381921, 1), (6447714, 1)]"
  by (intro conjI; code_simp)

text \<open>
  Claim C2. \<open>generateFromString\<close> is claimed to replace the newline bytes of a window by
  spaces before packing it. It packs the bytes as they are; only
  \<open>ngramFromStringRange\<close>, which \<open>updateFromStringRange\<close> uses, replaces them. For the
  text \<open>a\<newline>b\<close> (three bytes, normalisation skipped) the profile iterates the key of
  the bytes \<open>a\<close>, newline, \<open>b\<close>, while the window with the newline replaced has the key
  of \<open>a\<close>, space, \<open>b\<close>.
\<close>

theorem generateFromString_keeps_newline:
  "generateFromString id id []
     \<lparr>m_n = 0, m_size = 0, m_ngrams = 0, m_updates = [], m_lastNgramUpdates = []\<rparr>
     [CHR ''a'', CHR 0x0A, CHR ''b''] SKIP_NORMALIZATION
   = (True, [], [[(6425185, 1)]],
      \<lparr>m_n = 1, m_size = 1, m_ngrams = 0, m_updates = [], m_lastNgramUpdates = []\<rparr>)
   \<and> iterate [[(6425185, 1)]]
        \<lparr>m_n = 1, m_size = 1, m_ngrams = 0, m_updates = [], m_lastNgramUpdates = []\<rparr>
      = Inr [(6425185, 1)]
   \<and> char2Ngram [CHR ''a'', CHR 0x0A, CHR ''b'', CHR 0x00] = 6425185
   \<and> char2Ngram [CHR ''a'', CHR '' '', CHR ''b'', CHR 0x00] = 6430817
   \<and> ngramsFromStringRange [CHR ''a'', CHR 0x0A, CHR ''b''] = Inr [6430817]"
  by (intro conjI; code_simp)

text \<open>
  Claim C6. \<open>size()\<close> is claimed to be the number of distinct n-grams with a non-zero
  effective count. \<open>update\<close> increments \<open>m_size\<close> on every delta to an n-gram that is
  missing from the base map and ends non-zero, also when the n-gram is already pending.
  For the profile of \<open>aaa\<close>, \<open>updateFromStringRange\<close> from the window \<open>aaa\<close> to the window
  \<open>bbbb\<close> leaves one n-gram (\<open>bbb\<close>, count 2) and \<open>size() = 2\<close>.
\<close>

theorem update_counts_pending_ngram_twice:
  "updateFromStringRange [[(6381921, 1)]]
     \<lparr>m_n = 1, m_size = 1, m_ngrams = 0, m_updates = [], m_lastNgramUpdates = []\<rparr>
     ''aaa'' ''bbbb''
   = Inr ([[(6381921, 1)]],
          \<lparr>m_n = 2, m_size = 2, m_ngrams = 0, m_updates = [(6381921, 0), (6447714, 2)],
           m_lastNgramUpdates = [(6381921, - 1), (6447714, 1), (6447714, 1)]\<rparr>)
   \<and> size_of \<lparr>m_n = 2, m_size = 2, m_ngrams = 0, m_updates = [(6381921, 0), (6447714, 2)],
               m_lastNgramUpdates = [(6381921, - 1), (6447714, 1), (6447714, 1)]\<rparr> = 2
   \<and> {k. freq [[(6381921, 1)]]
            \<lparr>m_n = 2, m_size = 2, m_ngrams = 0, m_updates = [(6381921, 0), (6447714, 2)],
             m_lastNgramUpdates = [(6381921, - 1), (6447714, 1), (6447714, 1)]\<rparr> k \<noteq> 0}
      = {6447714}"
proof (intro conjI)
  show "updateFromStringRange [[(6381921, 1)]]
     \<lparr>m_n = 1, m_size = 1, m_ngrams = 0, m_updates = [], m_lastNgramUpdates = []\<rparr>
     ''aaa'' ''bbbb''
   = Inr ([[(6381921, 1)]],
          \<lparr>m_n = 2, m_size = 2, m_ngrams = 0, m_updates = [(6381921, 0), (6447714, 2)],
           m_lastNgramUpdates = [(6381921, - 1), (6447714, 1), (6447714, 1)]\<rparr>)"
    by code_simp
  show "size_of \<lparr>m_n = 2, m_size = 2, m_ngrams = 0, m_updates = [(6381921, 0), (6447714, 2)],
               m_lastNgramUpdates = [(6381921, - 1), (6447714, 1), (6447714, 1)]\<rparr> = 2"
    by (simp add: size_of_def)
  show "{k. freq [[(6381921, 1)]]
            \<lparr>m_n = 2, m_size = 2, m_ngrams = 0, m_updates = [(6381921, 0), (6447714, 2)],
             m_lastNgramUpdates = [(6381921, - 1), (6447714, 1), (6447714, 1)]\<rparr> k \<noteq> 0}
      = {6447714}"
    by (auto simp: freq_def)
qed

text \<open>
  Claim C9. A delta that drives a count below zero is claimed to be caught by the
  assertions of \<open>update\<close>. \<open>updateVal\<close>, \<open>m_n\<close> and \<open>m_size\<close> are \<open>std::size_t\<close>, so
  \<open>updateVal >= 0\<close>, \<open>m_n >= 0\<close> and \<open>m_size >= 0\<close> hold of every value and the count
  wraps. For the profile of \<open>a\<newline>b\<close>, \<open>updateFromStringRange\<close> from the window
  \<open>a\<newline>b\<close> to the window \<open>axb\<close> decrements the n-gram \<open>a b\<close>, which the profile does not
  hold: the call returns normally with the pending count \<open>2 ^ 64 - 1\<close>. So does a
  direct \<open>update([(bbb, -1)])\<close> on the profile of \<open>aaa\<close>.
\<close>

theorem update_wraps_below_zero_without_assertion:
  "updateFromStringRange [[(6425185, 1)]]
     \<lparr>m_n = 1, m_size = 1, m_ngrams = 0, m_updates = [], m_lastNgramUpdates = []\<rparr>
     [CHR ''a'', CHR 0x0A, CHR ''b''] ''axb''
   = Inr ([[(6425185, 1)]],
          \<lparr>m_n = 1, m_size = 3, m_ngrams = 0,
           m_updates = [(6430817, 18446744073709551615), (6453345, 1)],
           m_lastNgramUpdates = [(6430817, - 1), (6453345, 1)]\<rparr>)
   \<and> update [[(6381921, 1)]]
        \<lparr>m_n = 1, m_size = 1, m_ngrams = 0, m_updates = [], m_lastNgramUpdates = []\<rparr>
        [(6447714, - 1)]
      = Inr ([[(6381921, 1)]],
             \<lparr>m_n = 0, m_size = 2, m_ngrams = 0, m_updates = [(6447714, 18446744073709551615)],
              m_lastNgramUpdates = [(6447714, - 1)]\<rparr>)
   \<and> freq [[(6381921, 1)]]
        \<lparr>m_n = 0, m_size = 2, m_ngrams = 0, m_updates = [(6447714, 18446744073709551615)],
         m_lastNgramUpdates = [(6447714, - 1)]\<rparr> 6447714 = 2 ^ 64 - 1"
  by (intro conjI; code_simp)

text \<open>
  The only assertion of the loop of \<open>update\<close> that can fail is \<open>m_size > 0\<close>: no
  delta, however negative, makes the loop fail on a count.
\<close>

lemma update_step_error:
  "update_step base p u = Inl e \<Longrightarrow>
     e = AssertionFailed \<and> m_size p = 0 \<and> map_of base (fst u) \<noteq> None"
  by (auto simp: update_step_def Let_def word_gt_0 split: if_splits option.splits)

section \<open>What generation, update and apply guarantee\<close>

text \<open>
  General results behind the evaluations above. \<open>sorted_keys\<close> says that a list is a
  \<open>std::map\<close>: strictly ascending keys. \<open>raw_windows\<close> are the 3-byte windows of a text
  packed as they are, the way \<open>generateFromString\<close> packs them.
\<close>

definition sorted_keys :: "NgramMap \<Rightarrow> bool" where
  "sorted_keys m = sorted_wrt (<) (map fst m)"

lemma map_of_map_assign: "map_of (map_assign m k v) = (map_of m)(k \<mapsto> v)"
  by (induction m k v rule: map_assign.induct) (auto simp: fun_eq_iff)

lemma map_at_map_assign: "map_at (map_assign m k v) k' = (if k' = k then v else map_at m k')"
  by (simp add: map_at_def map_of_map_assign)

lemma keys_map_assign: "fst ` set (map_assign m k v) = insert k (fst ` set m)"
  by (induction m k v rule: map_assign.induct) auto

lemma sorted_map_assign: "sorted_keys m \<Longrightarrow> sorted_keys (map_assign m k v)"
proof (induction m k v rule: map_assign.induct)
  case (1 k v)
  show ?case by (simp add: sorted_keys_def)
next
  case (2 k' v' m k v)
  show ?case
  proof (cases "k < k'")
    case True
    with 2 show ?thesis by (auto simp: sorted_keys_def)
  next
    case False
    show ?thesis
    proof (cases "k = k'")
      case True
      with 2 show ?thesis by (auto simp: sorted_keys_def)
    next
      case ne: False
      with False have lt: "k' < k" by simp
      from 2 False ne have "sorted_keys (map_assign m k v)" by (simp add: sorted_keys_def)
      moreover have "\<forall>x \<in> fst ` set (map_assign m k v). k' < x"
        using "2.prems" lt by (auto simp: keys_map_assign sorted_keys_def)
      ultimately show ?thesis using False ne by (auto simp: sorted_keys_def)
    qed
  qed
qed

lemma map_of_map_erase: "map_of (map_erase m k) = (map_of m)(k := None)"
  by (induction m) (auto simp: map_erase_def fun_eq_iff)

lemma sorted_map_erase: "sorted_keys m \<Longrightarrow> sorted_keys (map_erase m k)"
  unfolding sorted_keys_def map_erase_def
  by (induction m) auto

lemma iterate_from_base_only: "iterate_from (ns, []) = Inr ns"
proof (induction ns)
  case Nil
  show ?case by (simp add: end_it_def)
next
  case (Cons e ns)
  have a: "advance (e # ns, []) = (ns, [])" by (simp add: advance_def)
  have "increment (e # ns, []) = (ns, [])"
    by (subst increment.simps) (simp add: a)
  with Cons show ?case
    by (subst iterate_from.simps) (simp add: end_it_def deref_def)
qed

fun raw_windows :: "string \<Rightarrow> Ngram list" where
  "raw_windows (c0 # c1 # c2 # rest) = char2Ngram [c0, c1, c2, CHR 0x00] # raw_windows (c1 # c2 # rest)"
| "raw_windows _ = []"

lemma length_raw_windows: "length (raw_windows t) = length t - 2"
  by (induction t rule: raw_windows.induct) auto

lemma generate_loop_spec:
  "sorted_keys m \<Longrightarrow> generate_loop t m n = (m', n') \<Longrightarrow>
     sorted_keys m' \<and> n' = n + of_nat (length (raw_windows t))
     \<and> fst ` set m' = fst ` set m \<union> set (raw_windows t)
     \<and> (\<forall>k. map_at m' k = map_at m k + of_nat (count_list (raw_windows t) k))"
proof (induction t m n arbitrary: m' n' rule: generate_loop.induct)
  case (1 c0 c1 c2 rest m n)
  let ?g = "char2Ngram [c0, c1, c2, CHR 0x00]"
  let ?m1 = "map_assign m ?g (map_at m ?g + 1)"
  from "1.prems"(2) have r: "generate_loop (c1 # c2 # rest) ?m1 (n + 1) = (m', n')"
    by (simp add: Let_def)
  from "1.prems"(1) have s: "sorted_keys ?m1" by (rule sorted_map_assign)
  from "1.IH" [OF refl s r]
  have ih: "sorted_keys m'" "n' = n + 1 + of_nat (length (raw_windows (c1 # c2 # rest)))"
    "fst ` set m' = fst ` set ?m1 \<union> set (raw_windows (c1 # c2 # rest))"
    "\<forall>k. map_at m' k = map_at ?m1 k + of_nat (count_list (raw_windows (c1 # c2 # rest)) k)"
    by simp_all
  show ?case
    using ih by (auto simp: keys_map_assign map_at_map_assign)
qed auto

text \<open>
  For every text of at least \<open>ORDER\<close> bytes (after the passes the flags select),
  \<open>generateFromString\<close> returns \<open>true\<close>, writes nothing to \<open>std::cerr\<close>, sets
  \<open>n\<close> to the length minus 2, and builds a fresh base map that holds exactly the
  windows of the text, packed without any replacement, each with its number of
  occurrences; the profile iterates that map.
\<close>

lemma generateFromString_profile:
  assumes "ORDER \<le> length (prepare_text stripPosAnnotations normalizeText flags txt)"
  shows "\<exists>m. generateFromString stripPosAnnotations normalizeText h p txt flags
               = (True, [], h @ [m],
                  \<lparr>m_n = of_nat (length (prepare_text stripPosAnnotations normalizeText flags txt) - 2),
                   m_size = of_nat (length m), m_ngrams = length h,
                   m_updates = [], m_lastNgramUpdates = []\<rparr>)
             \<and> sorted_keys m
             \<and> fst ` set m = set (raw_windows (prepare_text stripPosAnnotations normalizeText flags txt))
             \<and> (\<forall>k. map_at m k
                    = of_nat (count_list (raw_windows (prepare_text stripPosAnnotations normalizeText flags txt)) k))
             \<and> iterate (h @ [m])
                   \<lparr>m_n = of_nat (length (prepare_text stripPosAnnotations normalizeText flags txt) - 2),
                    m_size = of_nat (length m), m_ngrams = length h,
                    m_updates = [], m_lastNgramUpdates = []\<rparr> = Inr m"
proof -
  let ?t = "prepare_text stripPosAnnotations normalizeText flags txt"
  obtain m n where g: "generate_loop ?t [] 0 = (m, n)" by (cases "generate_loop ?t [] 0")
  have s0: "sorted_keys []" by (simp add: sorted_keys_def)
  from generate_loop_spec [OF s0 g]
  have f: "sorted_keys m" "n = of_nat (length (raw_windows ?t))"
    "fst ` set m = set (raw_windows ?t)"
    "\<forall>k. map_at m k = of_nat (count_list (raw_windows ?t) k)"
    by (simp_all add: map_at_def)
  have "generateFromString stripPosAnnotations normalizeText h p txt flags
        = (True, [], h @ [m],
           \<lparr>m_n = of_nat (length ?t - 2), m_size = of_nat (length m), m_ngrams = length h,
            m_updates = [], m_lastNgramUpdates = []\<rparr>)"
    using assms g f(2) by (simp add: generateFromString_def Let_def length_raw_windows)
  moreover have "iterate (h @ [m])
       \<lparr>m_n = of_nat (length ?t - 2), m_size = of_nat (length m), m_ngrams = length h,
        m_updates = [], m_lastNgramUpdates = []\<rparr> = Inr m"
    by (simp add: iterate_def begin_it_def iterate_from_base_only del: iterate_from.simps)
  ultimately show ?thesis using f by blast
qed

text \<open>
  A profile is well formed when its base pointer is allocated, base and pending map are
  \<open>std::map\<close>s, and the base map holds no zero count (true after
  \<open>generateFromString\<close> and after every \<open>apply\<close>). \<open>effective\<close> is the pending count
  if present, else the base count; \<open>total_delta\<close> sums the deltas of an n-gram.
\<close>

definition wf_profile :: "NgramHeap \<Rightarrow> NgramProfile \<Rightarrow> bool" where
  "wf_profile h p \<longleftrightarrow>
     m_ngrams p < length h \<and> sorted_keys (h ! m_ngrams p) \<and> sorted_keys (m_updates p)
     \<and> 0 \<notin> snd ` set (h ! m_ngrams p)"

fun total_delta :: "NgramUpdate list \<Rightarrow> Ngram \<Rightarrow> 64 word" where
  "total_delta [] k = 0"
| "total_delta (u # us) k = (if fst u = k then word_of_int (snd u) else 0) + total_delta us k"

definition effective :: "NgramMap \<Rightarrow> NgramMap \<Rightarrow> Ngram \<Rightarrow> 64 word" where
  "effective base pending k = (case map_of pending k of Some v \<Rightarrow> v | None \<Rightarrow> map_at base k)"

lemma freq_effective: "freq h p k = effective (h ! m_ngrams p) (m_updates p) k"
  by (simp add: freq_def effective_def map_at_def split: option.splits)

lemma update_step_effective:
  assumes "update_step base p u = Inr p'" and "sorted_keys (m_updates p)"
  shows "sorted_keys (m_updates p')"
    and "m_ngrams p' = m_ngrams p"
    and "effective base (m_updates p') k
         = effective base (m_updates p) k + (if fst u = k then word_of_int (snd u) else 0)"
proof -
  let ?seeded = "case map_of base (fst u) of
                   Some c \<Rightarrow> (if map_of (m_updates p) (fst u) = None
                              then map_assign (m_updates p) (fst u) c else m_updates p)
                 | None \<Rightarrow> m_updates p"
  let ?val = "map_at ?seeded (fst u) + word_of_int (snd u)"
  from assms(1) have u: "m_updates p' = map_assign ?seeded (fst u) ?val"
    and ng: "m_ngrams p' = m_ngrams p"
    by (auto simp: update_step_def Let_def split: if_splits)
  have ss: "sorted_keys ?seeded"
    using assms(2) by (auto simp: sorted_map_assign split: option.splits)
  show "sorted_keys (m_updates p')" unfolding u using ss by (rule sorted_map_assign)
  show "m_ngrams p' = m_ngrams p" by (rule ng)
  have e: "\<And>k'. effective base ?seeded k' = effective base (m_updates p) k'"
    by (auto simp: effective_def map_of_map_assign map_at_def split: option.splits)
  have a: "map_at ?seeded (fst u) = effective base (m_updates p) (fst u)"
    by (auto simp: effective_def map_of_map_assign map_at_def split: option.splits)
  show "effective base (m_updates p') k
         = effective base (m_updates p) k + (if fst u = k then word_of_int (snd u) else 0)"
  proof (cases "fst u = k")
    case True
    have "effective base (m_updates p') k = ?val"
      unfolding u using True by (simp add: effective_def map_of_map_assign)
    with a True show ?thesis by simp
  next
    case False
    have "effective base (m_updates p') k = effective base ?seeded k"
      unfolding u using False by (simp add: effective_def map_of_map_assign)
    with e False show ?thesis by simp
  qed
qed

lemma update_loop_effective:
  "update_loop base p us = Inr p' \<Longrightarrow> sorted_keys (m_updates p) \<Longrightarrow>
     sorted_keys (m_updates p') \<and> m_ngrams p' = m_ngrams p
     \<and> (\<forall>k. effective base (m_updates p') k = effective base (m_updates p) k + total_delta us k)"
proof (induction us arbitrary: p)
  case Nil
  then show ?case by simp
next
  case (Cons u us)
  from Cons.prems(1) obtain p1 where s: "update_step base p u = Inr p1"
    and r: "update_loop base p1 us = Inr p'"
    by (auto split: sum.splits)
  note st = update_step_effective [OF s Cons.prems(2)]
  from Cons.IH [OF r st(1)] st(2) st(3) show ?case
    by (simp add: add.assoc)
qed

lemma sorted_keys_Cons:
  "sorted_keys ((k, v) # m) \<longleftrightarrow> (\<forall>x \<in> fst ` set m. k < x) \<and> sorted_keys m"
  by (auto simp: sorted_keys_def)

lemma sorted_keys_map_of_None:
  "sorted_keys ((k, v) # m) \<Longrightarrow> map_of m k = None"
  by (auto simp: sorted_keys_Cons map_of_eq_None_iff)

lemma sorted_keys_distinct: "sorted_keys m \<Longrightarrow> distinct (map fst m)"
  unfolding sorted_keys_def by (simp add: strict_sorted_iff)

lemma apply_loop_spec:
  "sorted_keys pending \<Longrightarrow> sorted_keys base \<Longrightarrow>
     sorted_keys (apply_loop base pending)
     \<and> (\<forall>k. map_of (apply_loop base pending) k
            = (case map_of pending k of
                 Some v \<Rightarrow> if v = 0 then None else Some v
               | None \<Rightarrow> map_of base k))"
proof (induction pending arbitrary: base)
  case Nil
  then show ?case by simp
next
  case (Cons e rest)
  obtain k0 v0 where e: "e = (k0, v0)" by (cases e)
  from Cons.prems(1) e have sr: "sorted_keys rest"
    by (simp add: sorted_keys_Cons)
  from Cons.prems(1) e have n: "map_of rest k0 = None"
    by (simp add: sorted_keys_map_of_None)
  let ?b = "if v0 = 0 then map_erase base k0 else map_assign base k0 v0"
  have sb: "sorted_keys ?b"
    using Cons.prems(2) by (simp add: sorted_map_erase sorted_map_assign)
  have al: "apply_loop base (e # rest) = apply_loop ?b rest"
    by (simp add: e)
  from Cons.IH [OF sr sb]
  have ih: "sorted_keys (apply_loop ?b rest)"
    "\<And>k. map_of (apply_loop ?b rest) k
       = (case map_of rest k of Some v \<Rightarrow> if v = 0 then None else Some v | None \<Rightarrow> map_of ?b k)"
    by blast+
  have "\<And>k. map_of (apply_loop ?b rest) k
       = (case map_of (e # rest) k of Some v \<Rightarrow> if v = 0 then None else Some v | None \<Rightarrow> map_of base k)"
  proof -
    fix k
    show "map_of (apply_loop ?b rest) k
       = (case map_of (e # rest) k of Some v \<Rightarrow> if v = 0 then None else Some v | None \<Rightarrow> map_of base k)"
    proof (cases "k = k0")
      case True
      then show ?thesis
        using n by (simp add: ih(2) e map_of_map_erase map_of_map_assign)
    next
      case False
      then show ?thesis
        by (simp add: ih(2) e map_of_map_erase map_of_map_assign split: option.splits)
    qed
  qed
  with ih(1) show ?case unfolding al by simp
qed

lemma apply_loop_nonzero:
  assumes "sorted_keys pending" and "sorted_keys base" and "0 \<notin> snd ` set base"
  shows "0 \<notin> snd ` set (apply_loop base pending)"
proof
  assume "0 \<in> snd ` set (apply_loop base pending)"
  then obtain k where k: "(k, 0) \<in> set (apply_loop base pending)" by force
  from apply_loop_spec [OF assms(1,2)]
  have s: "sorted_keys (apply_loop base pending)"
    and m: "map_of (apply_loop base pending) k
            = (case map_of pending k of Some v \<Rightarrow> if v = 0 then None else Some v
               | None \<Rightarrow> map_of base k)"
    by blast+
  from sorted_keys_distinct [OF s] k have "map_of (apply_loop base pending) k = Some 0"
    by simp
  with m have "map_of base k = Some 0"
    by (auto split: option.splits if_splits)
  then have "(k, 0) \<in> set base" by (rule map_of_SomeD)
  with assms(3) show False by force
qed

lemma apply_loop_map_at:
  assumes "sorted_keys pending" and "sorted_keys base"
  shows "map_at (apply_loop base pending) k = effective base pending k"
  using apply_loop_spec [OF assms]
  by (auto simp: map_at_def effective_def split: option.splits)

lemma sorted_nonzero_unique:
  "sorted_keys a \<Longrightarrow> sorted_keys b \<Longrightarrow> 0 \<notin> snd ` set a \<Longrightarrow> 0 \<notin> snd ` set b \<Longrightarrow>
     (\<forall>k. map_at a k = map_at b k) \<Longrightarrow> a = b"
proof -
  assume sa: "sorted_keys a" and sb: "sorted_keys b"
    and za: "0 \<notin> snd ` set a" and zb: "0 \<notin> snd ` set b"
    and eq: "\<forall>k. map_at a k = map_at b k"
  have nz: "\<And>m k. sorted_keys m \<Longrightarrow> 0 \<notin> snd ` set m \<Longrightarrow>
      map_of m k = (if map_at m k = 0 then None else Some (map_at m k))"
  proof -
    fix m :: NgramMap and k
    assume "sorted_keys m" and z: "0 \<notin> snd ` set m"
    show "map_of m k = (if map_at m k = 0 then None else Some (map_at m k))"
    proof (cases "map_of m k")
      case None
      then show ?thesis by (simp add: map_at_def)
    next
      case (Some v)
      then have "(k, v) \<in> set m" by (rule map_of_SomeD)
      with z have "v \<noteq> 0" by force
      with Some show ?thesis by (simp add: map_at_def)
    qed
  qed
  have "map_of a = map_of b"
    using nz [OF sa za] nz [OF sb zb] eq by (simp add: fun_eq_iff)
  then have st: "set a = set b"
    using sorted_keys_distinct [OF sa] sorted_keys_distinct [OF sb]
    by (simp add: map_of_inject_set)
  have "map fst a = map fst b"
  proof (rule sorted_distinct_set_unique)
    show "sorted (map fst a)" using sa by (simp add: sorted_keys_def strict_sorted_iff)
    show "sorted (map fst b)" using sb by (simp add: sorted_keys_def strict_sorted_iff)
    show "distinct (map fst a)" by (rule sorted_keys_distinct [OF sa])
    show "distinct (map fst b)" by (rule sorted_keys_distinct [OF sb])
    show "set (map fst a) = set (map fst b)" using st by simp
  qed
  with \<open>map_of a = map_of b\<close> show "a = b"
    using sorted_keys_distinct [OF sa] sorted_keys_distinct [OF sb]
    by (metis zip_map_fst_snd map_of_zip_inject length_map)
qed

text \<open>
  \<open>update\<close> adds to the effective count of every n-gram the sum of its deltas
  (modulo \<open>2 ^ 64\<close>) and keeps the profile well formed, whether or not it calls
  \<open>apply\<close>; \<open>apply\<close> keeps every effective count. Hence, for a well-formed profile,
  the iteration after \<open>update\<close> and \<open>apply\<close> is the iteration of the plain reference
  map that started with the profile's effective counts.
\<close>

lemma apply_profile_wf:
  assumes "wf_profile h p" and "apply_profile h p = (h', p')"
  shows "wf_profile h' p'" and "m_updates p' = []" and "freq h' p' k = freq h p k"
    and "iterate h' p' = Inr (h' ! m_ngrams p')"
proof -
  let ?b = "apply_loop (h ! m_ngrams p) (m_updates p)"
  from assms(2) have h': "h' = h @ [?b]" and p': "p' = p\<lparr>m_ngrams := length h, m_updates := []\<rparr>"
    by (auto simp: apply_profile_def Let_def)
  from assms(1) have s: "sorted_keys (m_updates p)" "sorted_keys (h ! m_ngrams p)"
    "0 \<notin> snd ` set (h ! m_ngrams p)"
    by (simp_all add: wf_profile_def)
  have cell: "h' ! m_ngrams p' = ?b" by (simp add: h' p')
  show "wf_profile h' p'"
    unfolding wf_profile_def cell
    using apply_loop_spec [OF s(1,2)] apply_loop_nonzero [OF s]
    by (simp add: h' p' sorted_keys_def)
  show "m_updates p' = []" by (simp add: p')
  have "freq h' p' k = map_at ?b k"
    unfolding freq_effective cell by (simp add: p' effective_def)
  also have "\<dots> = freq h p k"
    unfolding freq_effective by (rule apply_loop_map_at [OF s(1,2)])
  finally show "freq h' p' k = freq h p k" .
  show "iterate h' p' = Inr (h' ! m_ngrams p')"
    unfolding iterate_def begin_it_def by (simp add: p' iterate_from_base_only del: iterate_from.simps)
qed

lemma update_wf:
  assumes "wf_profile h p" and "update h p ds = Inr (h1, p1)"
  shows "wf_profile h1 p1" and "freq h1 p1 k = freq h p k + total_delta ds k"
proof -
  let ?p0 = "p\<lparr>m_lastNgramUpdates := []\<rparr>"
  from assms(2) obtain p' where l: "update_loop (h ! m_ngrams p) ?p0 ds = Inr p'"
    and r: "(if 150 < length (m_updates p') then apply_profile h p' else (h, p')) = (h1, p1)"
    by (auto simp: update_def split: sum.splits if_splits)
  from assms(1) have s0: "sorted_keys (m_updates ?p0)" by (simp add: wf_profile_def)
  from update_loop_effective [OF l s0]
  have f: "sorted_keys (m_updates p')" "m_ngrams p' = m_ngrams p"
    "\<And>k. effective (h ! m_ngrams p) (m_updates p') k
           = effective (h ! m_ngrams p) (m_updates p) k + total_delta ds k"
    by simp_all
  have wf': "wf_profile h p'"
    using assms(1) f(1,2) by (simp add: wf_profile_def)
  have fr: "freq h p' k = freq h p k + total_delta ds k"
    unfolding freq_effective f(2) by (rule f(3))
  show "wf_profile h1 p1"
  proof (cases "150 < length (m_updates p')")
    case True
    with r have "apply_profile h p' = (h1, p1)" by simp
    from apply_profile_wf(1) [OF wf' this] show ?thesis .
  next
    case False
    with r wf' show ?thesis by simp
  qed
  show "freq h1 p1 k = freq h p k + total_delta ds k"
  proof (cases "150 < length (m_updates p')")
    case True
    with r have "apply_profile h p' = (h1, p1)" by simp
    from apply_profile_wf(3) [OF wf' this] fr show ?thesis by simp
  next
    case False
    with r fr show ?thesis by simp
  qed
qed

lemma spec_plain_update_spec:
  "sorted_keys m \<Longrightarrow>
     sorted_keys (spec_plain_update m ds)
     \<and> (\<forall>k. map_at (spec_plain_update m ds) k = map_at m k + total_delta ds k)"
proof (induction ds arbitrary: m)
  case Nil
  then show ?case by simp
next
  case (Cons u us)
  let ?m1 = "map_assign m (fst u) (map_at m (fst u) + word_of_int (snd u))"
  from Cons.prems have s: "sorted_keys ?m1" by (rule sorted_map_assign)
  from Cons.IH [OF s] show ?case
    by (auto simp: map_at_map_assign)
qed

lemma spec_plain_iteration_spec:
  assumes "sorted_keys m"
  shows "sorted_keys (spec_plain_iteration m)"
    and "0 \<notin> snd ` set (spec_plain_iteration m)"
    and "map_at (spec_plain_iteration m) k = map_at m k"
proof -
  show "sorted_keys (spec_plain_iteration m)"
    using assms unfolding sorted_keys_def spec_plain_iteration_def
    by (induction m) auto
  show "0 \<notin> snd ` set (spec_plain_iteration m)"
    by (auto simp: spec_plain_iteration_def)
  show "map_at (spec_plain_iteration m) k = map_at m k"
    using assms
  proof (induction m)
    case Nil
    show ?case by (simp add: spec_plain_iteration_def)
  next
    case (Cons e m)
    obtain k0 v0 where e: "e = (k0, v0)" by (cases e)
    from Cons.prems e have sm: "sorted_keys m" and n: "map_of m k0 = None"
      by (simp_all add: sorted_keys_Cons sorted_keys_map_of_None)
    have n': "map_of (filter (\<lambda>e. snd e \<noteq> 0) m) k0 = None"
      using n by (auto simp: map_of_eq_None_iff)
    from Cons.IH [OF sm] show ?case
      using n n' by (auto simp: spec_plain_iteration_def map_at_def e)
  qed
qed

lemma applied_iteration_refines_plain_map:
  assumes "wf_profile h p"
    and "sorted_keys m0" and "\<forall>k. map_at m0 k = freq h p k"
    and "update h p ds = Inr (h1, p1)"
    and "apply_profile h1 p1 = (h2, p2)"
  shows "iterate h2 p2 = Inr (spec_plain_iteration (spec_plain_update m0 ds))"
proof -
  note w1 = update_wf [OF assms(1) assms(4)]
  note w2 = apply_profile_wf [OF w1(1) assms(5)]
  let ?b = "h2 ! m_ngrams p2"
  let ?r = "spec_plain_iteration (spec_plain_update m0 ds)"
  from w2(1) have b: "sorted_keys ?b" "0 \<notin> snd ` set ?b" by (simp_all add: wf_profile_def)
  have fb: "\<And>k. map_at ?b k = freq h2 p2 k"
    unfolding freq_effective by (simp add: w2(2) effective_def)
  from spec_plain_update_spec [OF assms(2)]
  have u: "sorted_keys (spec_plain_update m0 ds)"
    "\<And>k. map_at (spec_plain_update m0 ds) k = map_at m0 k + total_delta ds k"
    by blast+
  note r = spec_plain_iteration_spec [OF u(1)]
  have "\<forall>k. map_at ?b k = map_at ?r k"
    using assms(3) by (simp add: fb w2(3) w1(2) r(3) u(2))
  from sorted_nonzero_unique [OF b(1) r(1) b(2) r(2) this] have "?b = ?r" .
  with w2(4) show ?thesis by simp
qed

section \<open>Properties of the diff-string\<close>

text \<open>
  As long as only the diff-string's own operations touch the store of buffers, the hash
  value is the digest of the materialised text: the constructors and \<open>reset\<close> take the
  hash of the buffer they install, \<open>edit\<close> takes it of the new text, and \<open>apply\<close>
  moves the text without changing it.
\<close>

definition hash_ok :: "(string \<Rightarrow> string) \<Rightarrow> StringHeap \<Rightarrow> DiffString \<Rightarrow> bool" where
  "hash_ok md5 sh d =
     (case DiffString_string sh d of Inl err \<Rightarrow> False | Inr t \<Rightarrow> hashValue d = md5 t)"

lemma hash_ok_of_ptr: "hash_ok md5 sh (DiffString_of_ptr md5 sh a)"
  by (simp add: hash_ok_def DiffString_of_ptr_def updateHash_def DiffString_string_def hashValue_def)

lemma hash_ok_of_string:
  "DiffString_of_string md5 sh s = (sh', d) \<Longrightarrow> hash_ok md5 sh' d"
  by (auto simp: hash_ok_def DiffString_of_string_def DiffString_of_ptr_def make_shared_string_def
      updateHash_def DiffString_string_def hashValue_def)

lemma hash_ok_step:
  "hash_ok md5 sh d \<Longrightarrow> diff_step md5 sh d x = Inr (sh', d') \<Longrightarrow> hash_ok md5 sh' d'"
  by (cases x)
     (auto simp: hash_ok_def DiffString_reset_ptr_def DiffString_reset_string_def
        DiffString_apply_def DiffString_edit_def make_shared_string_def
        updateHash_def DiffString_string_def hashValue_def Let_def split: sum.splits)

lemma hash_ok_run:
  "hash_ok md5 sh d \<Longrightarrow> diff_run md5 sh d xs = Inr (sh', d') \<Longrightarrow> hash_ok md5 sh' d'"
proof (induction xs arbitrary: sh d)
  case Nil
  then show ?case by simp
next
  case (Cons x xs)
  from Cons.prems(2) obtain sh1 d1
    where s: "diff_step md5 sh d x = Inr (sh1, d1)" and r: "diff_run md5 sh1 d1 xs = Inr (sh', d')"
    by (auto split: sum.splits)
  from hash_ok_step [OF Cons.prems(1) s] have "hash_ok md5 sh1 d1" .
  from Cons.IH [OF this r] show ?case .
qed

lemma hashValue_is_md5_while_buffers_untouched:
  assumes "diff_run md5 sh (DiffString_of_ptr md5 sh a) ops = Inr (sh', d)"
  shows "\<exists>t. DiffString_string sh' d = Inr t \<and> hashValue d = md5 t"
  using hash_ok_run [OF hash_ok_of_ptr assms]
  by (auto simp: hash_ok_def split: sum.splits)

lemma hashValue_is_md5_from_string_constructor:
  assumes "DiffString_of_string md5 sh s = (sh0, d0)"
    and "diff_run md5 sh0 d0 ops = Inr (sh', d)"
  shows "\<exists>t. DiffString_string sh' d = Inr t \<and> hashValue d = md5 t"
  using hash_ok_run [OF hash_ok_of_string [OF assms(1)] assms(2)]
  by (auto simp: hash_ok_def split: sum.splits)

text \<open>
  \<open>State::setText\<close> is where another holder of the buffer changes it: whatever the
  text, the state's diff-string carries the digest of the buffer as it was passed in
  and materialises to the buffer as \<open>generateFromString\<close> left it.
\<close>

lemma setText_hash_and_text:
  assumes "text < length sh"
    and "setText stripPosAnnotations normalizeText md5 sh h st text flags = (cerr, sh', h', st')"
  shows "hashValue (m_text st') = md5 (sh ! text)
       \<and> DiffString_string sh' (m_text st')
           = Inr (prepare_text stripPosAnnotations normalizeText flags (sh ! text))"
  using assms
  by (auto simp: setText_def Let_def DiffString_of_ptr_def updateHash_def hashValue_def
      DiffString_string_def split: prod.splits)

text \<open>
  The last pass of \<open>normalizeText\<close> (NgramProfile.cpp, ``normalize line endings''):
  every carriage return followed by a line feed becomes a line feed. The passes before
  it (Unicode normalisation, byte-order mark, quotes, dashes, ellipses) leave a text of
  ASCII letters and line breaks as it is, so on such a text this pass is
  \<open>normalizeText\<close>.
\<close>

fun normalize_line_endings :: "string \<Rightarrow> string" where
  "normalize_line_endings (c # d # cs) =
     (if c = CHR 0x0D \<and> d = CHR 0x0A then CHR 0x0A # normalize_line_endings cs
      else c # normalize_line_endings (d # cs))"
| "normalize_line_endings cs = cs"

text \<open>
  Claim C10 fails in the code, at the root state of a search. \<open>Obfuscator::obfuscate\<close>
  sets the text of the initial state with \<open>setText(sourceText, flags)\<close>, and its flags
  never hold \<open>SKIP_NORMALIZATION\<close>. On a buffer holding the four bytes \<open>a\<close>, carriage
  return, line feed, \<open>b\<close>, with flags 0, \<open>setText\<close> constructs the diff-string, which
  takes the digest of these four bytes; \<open>generateFromString\<close> then rewrites the same
  buffer to \<open>a\<close>, line feed, \<open>b\<close>. The state's diff-string, on which no operation has
  been called since its construction, materialises to the three bytes while
  \<open>hashValue()\<close> is the digest of the four. A diff-string constructed from the
  three-byte string materialises to the same text and has the digest of the three bytes
  as its hash value: equal texts, hash values taken of different strings.
\<close>

theorem setText_hashes_text_before_normalisation:
  "setText stripPosAnnotations normalize_line_endings md5
     [[CHR ''a'', CHR 0x0D, CHR 0x0A, CHR ''b'']] []
     \<lparr>m_text = \<lparr>m_sourceString = 0, m_edits = [], m_hashValue = []\<rparr>,
      m_ngramProfile = \<lparr>m_n = 0, m_size = 0, m_ngrams = 0, m_updates = [],
                        m_lastNgramUpdates = []\<rparr>,
      m_mutableMetaData = \<lparr>jsd = None\<rparr>\<rparr> 0 0
   = ([], [[CHR ''a'', CHR 0x0A, CHR ''b'']], [[(0x620A61, 1)]],
      \<lparr>m_text = \<lparr>m_sourceString = 0, m_edits = [],
                 m_hashValue = md5 [CHR ''a'', CHR 0x0D, CHR 0x0A, CHR ''b'']\<rparr>,
       m_ngramProfile = \<lparr>m_n = 1, m_size = 1, m_ngrams = 0, m_updates = [],
                         m_lastNgramUpdates = []\<rparr>,
       m_mutableMetaData = \<lparr>jsd = None\<rparr>\<rparr>)
   \<and> DiffString_string [[CHR ''a'', CHR 0x0A, CHR ''b'']]
       \<lparr>m_sourceString = 0, m_edits = [],
        m_hashValue = md5 [CHR ''a'', CHR 0x0D, CHR 0x0A, CHR ''b'']\<rparr>
     = Inr [CHR ''a'', CHR 0x0A, CHR ''b'']
   \<and> hashValue \<lparr>m_sourceString = 0, m_edits = [],
        m_hashValue = md5 [CHR ''a'', CHR 0x0D, CHR 0x0A, CHR ''b'']\<rparr>
     = md5 [CHR ''a'', CHR 0x0D, CHR 0x0A, CHR ''b'']
   \<and> DiffString_of_string md5 [[CHR ''a'', CHR 0x0A, CHR ''b'']] [CHR ''a'', CHR 0x0A, CHR ''b'']
     = ([[CHR ''a'', CHR 0x0A, CHR ''b''], [CHR ''a'', CHR 0x0A, CHR ''b'']],
        \<lparr>m_sourceString = 1, m_edits = [], m_hashValue = md5 [CHR ''a'', CHR 0x0A, CHR ''b'']\<rparr>)
   \<and> DiffString_string [[CHR ''a'', CHR 0x0A, CHR ''b''], [CHR ''a'', CHR 0x0A, CHR ''b'']]
        \<lparr>m_sourceString = 1, m_edits = [], m_hashValue = md5 [CHR ''a'', CHR 0x0A, CHR ''b'']\<rparr>
     = Inr [CHR ''a'', CHR 0x0A, CHR ''b'']"
  by code_simp

section \<open>Properties of the heuristic evaluation\<close>

text \<open>
  Claim C5 as stated fails: it gives a value of \<open>h\<close> for every evaluation. At a
  divergence one unit in the last place above 1, \<open>jsd = 1 + 2^-52\<close>, the evaluation of
  the root (\<open>g = 0\<close>, nothing stored yet) with assertions compiled in writes the error
  line and fails at \<open>assert(jsd <= 1.0)\<close>: it returns no \<open>h\<close>, and stores nothing.
\<close>

theorem jsd_slightly_above_one_returns_no_h:
  "ComputeCostH True (1 + 1 / 2 ^ 52) 0 \<lparr>jsd = None\<rparr>
     \<lparr>originalTextLength = None, originalJsd = None, goalJSDist = Some 1\<rparr>
   = ([(''ERROR: Numerical underflow, jsd = '', 1 + 1 / 2 ^ 52)], Inl AssertionFailed)"
  by (simp add: ComputeCostH_def Let_def)

text \<open>
  Claim C5, amended to every evaluation of a context whose goal distance is set. With
  assertions compiled in and \<open>jsd > 1\<close> the evaluation writes the error line and fails.
  Every other evaluation, whatever \<open>jsd\<close> is, returns; it writes the error line exactly
  when \<open>jsd > 1\<close>, stores \<open>jsd\<close> in the state's metadata, stores
  \<open>originalJsd = max(0, jsd - 1e-10)\<close> in the context's metadata exactly when none was
  stored before, and returns the \<open>h\<close> below, where \<open>orig\<close> is the \<open>originalJsd\<close> the
  context holds after the call. For \<open>0 \<le> jsd\<close> and \<open>0 \<le> orig\<close> this is the formula of
  the claim, \<open>max(0, goal - sqrt(2 jsd)) * g / max(1e-6, sqrt(2 jsd) - sqrt(2 orig))\<close>.
  For \<open>jsd < 0\<close> the square root is NaN and \<open>h = 0\<close>; for a negative \<open>orig\<close> (never
  one that this function stored) the denominator is \<open>1e-6\<close>. So \<open>h = 0\<close> when \<open>g = 0\<close>
  and when \<open>sqrt(2 jsd) \<ge> goal\<close>.
\<close>

theorem ComputeCostH_returns_formula_or_fails:
  assumes "goalJSDist cm = Some goal"
  shows "let orig = (case originalJsd cm of
                       None \<Rightarrow> max 0 (jsdv - 1 / 10 ^ 10)
                     | Some v \<Rightarrow> v);
             h = (if jsdv < 0 then 0
                  else max 0 (goal - sqrt (2 * jsdv)) * g
                         / (if orig < 0 then 1 / 10 ^ 6
                            else max (1 / 10 ^ 6) (sqrt (2 * jsdv) - sqrt (2 * orig))))
         in ComputeCostH asserts jsdv g sm cm
              = (if 1 < jsdv then [(''ERROR: Numerical underflow, jsd = '', jsdv)] else [],
                 if asserts \<and> 1 < jsdv then Inl AssertionFailed
                 else Inr (h, sm\<lparr>jsd := Some jsdv\<rparr>,
                           case originalJsd cm of
                             None \<Rightarrow> cm\<lparr>originalJsd := Some orig\<rparr>
                           | Some v \<Rightarrow> cm))
          \<and> (0 \<le> jsdv \<and> 0 \<le> orig \<longrightarrow>
                h = max 0 (goal - sqrt (2 * jsdv)) * g
                      / max (1 / 10 ^ 6) (sqrt (2 * jsdv) - sqrt (2 * orig)))
          \<and> (g = 0 \<longrightarrow> h = 0)
          \<and> (0 \<le> jsdv \<and> goal \<le> sqrt (2 * jsdv) \<longrightarrow> h = 0)"
  using assms
  by (cases "originalJsd cm")
     (auto simp: ComputeCostH_def Let_def sqrt_double_def minus_double_def max_double_def max_def)

text \<open>
  The theorem at the root of a search (\<open>g = 0\<close>, first evaluation, \<open>jsd = 1/2\<close>,
  goal distance 3), at a later evaluation with \<open>g = 4\<close>, and at \<open>jsd = 2\<close> with and
  without assertions.
\<close>

theorem ComputeCostH_returns_formula_or_fails_witness:
  "ComputeCostH True (1 / 2) 0 \<lparr>jsd = None\<rparr>
     \<lparr>originalTextLength = None, originalJsd = None, goalJSDist = Some 3\<rparr>
   = ([], Inr (0, \<lparr>jsd = Some (1 / 2)\<rparr>,
               \<lparr>originalTextLength = None, originalJsd = Some (1 / 2 - 1 / 10 ^ 10),
                goalJSDist = Some 3\<rparr>))
   \<and> ComputeCostH True (1 / 2) 4 \<lparr>jsd = None\<rparr>
     \<lparr>originalTextLength = None, originalJsd = Some 0, goalJSDist = Some 3\<rparr>
   = ([], Inr (8, \<lparr>jsd = Some (1 / 2)\<rparr>,
               \<lparr>originalTextLength = None, originalJsd = Some 0, goalJSDist = Some 3\<rparr>))
   \<and> ComputeCostH False 2 3 \<lparr>jsd = None\<rparr>
     \<lparr>originalTextLength = None, originalJsd = Some 0, goalJSDist = Some 5\<rparr>
   = ([(''ERROR: Numerical underflow, jsd = '', 2)],
      Inr (9 / 2, \<lparr>jsd = Some 2\<rparr>,
           \<lparr>originalTextLength = None, originalJsd = Some 0, goalJSDist = Some 5\<rparr>))
   \<and> ComputeCostH True 2 3 \<lparr>jsd = None\<rparr>
     \<lparr>originalTextLength = None, originalJsd = Some 0, goalJSDist = Some 5\<rparr>
   = ([(''ERROR: Numerical underflow, jsd = '', 2)], Inl AssertionFailed)"
  using ComputeCostH_returns_formula_or_fails [of
      "\<lparr>originalTextLength = None, originalJsd = None, goalJSDist = Some 3\<rparr>" 3 "1 / 2" 0 True
      "\<lparr>jsd = None\<rparr>"]
    ComputeCostH_returns_formula_or_fails [of
      "\<lparr>originalTextLength = None, originalJsd = Some 0, goalJSDist = Some 3\<rparr>" 3 "1 / 2" 4 True
      "\<lparr>jsd = None\<rparr>"]
    ComputeCostH_returns_formula_or_fails [of
      "\<lparr>originalTextLength = None, originalJsd = Some 0, goalJSDist = Some 5\<rparr>" 5 2 3 False
      "\<lparr>jsd = None\<rparr>"]
    ComputeCostH_returns_formula_or_fails [of
      "\<lparr>originalTextLength = None, originalJsd = Some 0, goalJSDist = Some 5\<rparr>" 5 2 3 True
      "\<lparr>jsd = None\<rparr>"]
  by (simp add: Let_def)

text \<open>
  Claim C7 as stated fails: a divergence above 1 is claimed to be clamped at 1.0 after a
  warning, the search continuing with the clamped value. At \<open>jsd = 2\<close> the evaluation
  with assertions compiled in writes the line and fails at \<open>assert(jsd <= 1.0)\<close>;
  compiled without assertions it stores \<open>jsd = 2\<close> in the state's metadata and computes
  \<open>h\<close> from it.
\<close>

theorem jsd_above_one_counterexample:
  "ComputeCostH True 2 1 \<lparr>jsd = None\<rparr>
     \<lparr>originalTextLength = None, originalJsd = Some 0, goalJSDist = Some 3\<rparr>
   = ([(''ERROR: Numerical underflow, jsd = '', 2)], Inl AssertionFailed)
   \<and> ComputeCostH False 2 1 \<lparr>jsd = None\<rparr>
     \<lparr>originalTextLength = None, originalJsd = Some 0, goalJSDist = Some 3\<rparr>
   = ([(''ERROR: Numerical underflow, jsd = '', 2)],
      Inr (1 / 2, \<lparr>jsd = Some 2\<rparr>,
           \<lparr>originalTextLength = None, originalJsd = Some 0, goalJSDist = Some 3\<rparr>))"
  by (simp add: ComputeCostH_def Let_def sqrt_double_def minus_double_def max_double_def)

text \<open>
  Claim C7, amended to what the code does. Whenever the computed divergence exceeds 1,
  the evaluation writes one error line with the value to \<open>std::cerr\<close>. With assertions
  compiled in it then fails at the assertion \<open>jsd <= 1.0\<close> and returns nothing. With
  assertions compiled out and a goal distance set it returns, and the value above 1 is
  used as it is: it is stored as the state's \<open>jsd\<close>; on a first evaluation
  \<open>jsd - 1e-10\<close> is stored as \<open>originalJsd\<close>; and \<open>h\<close> is computed from
  \<open>sqrt(2 jsd)\<close>, which exceeds \<open>sqrt 2\<close>, the largest distance a clamped value could
  give. Without a goal distance the evaluation fails at the empty optional. Nothing
  clamps the value.
\<close>

theorem jsd_above_one_reported_not_clamped:
  assumes "1 < jsdv"
  shows "ComputeCostH True jsdv g sm cm
           = ([(''ERROR: Numerical underflow, jsd = '', jsdv)], Inl AssertionFailed)
       \<and> ComputeCostH False jsdv g sm (cm\<lparr>originalJsd := None, goalJSDist := Some goal\<rparr>)
           = ([(''ERROR: Numerical underflow, jsd = '', jsdv)],
              Inr (max 0 (goal - sqrt (2 * jsdv)) * g
                     / max (1 / 10 ^ 6) (sqrt (2 * jsdv) - sqrt (2 * (jsdv - 1 / 10 ^ 10))),
                   sm\<lparr>jsd := Some jsdv\<rparr>,
                   cm\<lparr>originalJsd := Some (jsdv - 1 / 10 ^ 10), goalJSDist := Some goal\<rparr>))
       \<and> ComputeCostH False jsdv g sm (cm\<lparr>originalJsd := Some orig, goalJSDist := Some goal\<rparr>)
           = ([(''ERROR: Numerical underflow, jsd = '', jsdv)],
              Inr (max 0 (goal - sqrt (2 * jsdv)) * g
                     / (if orig < 0 then 1 / 10 ^ 6
                        else max (1 / 10 ^ 6) (sqrt (2 * jsdv) - sqrt (2 * orig))),
                   sm\<lparr>jsd := Some jsdv\<rparr>,
                   cm\<lparr>originalJsd := Some orig, goalJSDist := Some goal\<rparr>))
       \<and> ComputeCostH False jsdv g sm (cm\<lparr>goalJSDist := None\<rparr>)
           = ([(''ERROR: Numerical underflow, jsd = '', jsdv)], Inl UninitializedOptional)"
  using assms
  by (cases "originalJsd cm")
     (auto simp: ComputeCostH_def Let_def sqrt_double_def minus_double_def max_double_def max_def)

text \<open>The theorem at \<open>jsd = 2\<close>, \<open>g = 3\<close> and goal distance 5.\<close>

theorem jsd_above_one_reported_not_clamped_witness:
  "ComputeCostH True 2 3 \<lparr>jsd = None\<rparr>
     \<lparr>originalTextLength = None, originalJsd = Some 0, goalJSDist = Some 5\<rparr>
   = ([(''ERROR: Numerical underflow, jsd = '', 2)], Inl AssertionFailed)
   \<and> ComputeCostH False 2 3 \<lparr>jsd = None\<rparr>
     \<lparr>originalTextLength = None, originalJsd = Some 0, goalJSDist = Some 5\<rparr>
   = ([(''ERROR: Numerical underflow, jsd = '', 2)],
      Inr (9 / 2, \<lparr>jsd = Some 2\<rparr>,
           \<lparr>originalTextLength = None, originalJsd = Some 0, goalJSDist = Some 5\<rparr>))"
  using jsd_above_one_reported_not_clamped [of 2 3 "\<lparr>jsd = None\<rparr>"
      "\<lparr>originalTextLength = None, originalJsd = Some 0, goalJSDist = Some 5\<rparr>" 5 0]
  by simp

section \<open>Properties of the successor update\<close>

lemma str_find_occurs: "str_find hay needle \<noteq> None \<longleftrightarrow> (\<exists>pre post. hay = pre @ needle @ post)"
proof (induction hay)
  case Nil
  show ?case by simp
next
  case (Cons c cs)
  show ?case
  proof (cases "take (length needle) (c # cs) = needle")
    case True
    then have "c # cs = [] @ needle @ drop (length needle) (c # cs)"
      by (metis append_Nil append_take_drop_id)
    then have "\<exists>pre post. c # cs = pre @ needle @ post" by blast
    with True show ?thesis by simp
  next
    case False
    have "(\<exists>pre post. c # cs = pre @ needle @ post) \<longleftrightarrow> (\<exists>pre post. cs = pre @ needle @ post)"
    proof
      assume "\<exists>pre post. c # cs = pre @ needle @ post"
      then obtain pre post where e: "c # cs = pre @ needle @ post" by blast
      show "\<exists>pre post. cs = pre @ needle @ post"
      proof (cases pre)
        case Nil
        with e have "take (length needle) (c # cs) = needle" by simp
        with False show ?thesis by simp
      next
        case (Cons a pre')
        with e have "cs = pre' @ needle @ post" by simp
        then show ?thesis by blast
      qed
    next
      assume "\<exists>pre post. cs = pre @ needle @ post"
      then obtain pre post where "cs = pre @ needle @ post" by blast
      then have "c # cs = (c # pre) @ needle @ post" by simp
      then show "\<exists>pre post. c # cs = pre @ needle @ post" by blast
    qed
    with False Cons.IH show ?thesis by simp
  qed
qed

lemma window_begin_nat: "window_begin e = e - 3"
  by (simp add: window_begin_def ORDER_def)

text \<open>
  What the check of \<open>updateSuccessor\<close> establishes. It inspects the text it proposes,
  the focus point's text with the characters from \<open>editStart\<close> to \<open>editEnd\<close> replaced
  by the update, in the window from 3 characters before \<open>editStart\<close> to 3 behind the
  inserted update, cut at the ends of the text. When the call returns \<open>true\<close> the focus
  3-gram does not occur in that window of the proposed text; when it occurs there the
  call returns \<open>false\<close> and neither the successor nor the store of base maps has
  changed.
\<close>

lemma updateSuccessor_window_check:
  assumes "updateSuccessor md5 h origState successor fp editStart editEnd upd = Inr (accepted, h', successor')"
  shows "(accepted \<longrightarrow>
            \<not> (\<exists>pre post.
                 substr (edited_text (focus_text fp) editStart editEnd upd) (editStart - 3)
                   (min (editStart + length upd + 3)
                        (length (edited_text (focus_text fp) editStart editEnd upd)))
                 = pre @ take 3 (drop (ngramOffset fp) (focus_text fp)) @ post))
       \<and> ((\<exists>pre post.
              substr (edited_text (focus_text fp) editStart editEnd upd) (editStart - 3)
                (min (editStart + length upd + 3)
                     (length (edited_text (focus_text fp) editStart editEnd upd)))
              = pre @ take 3 (drop (ngramOffset fp) (focus_text fp)) @ post) \<longrightarrow>
            \<not> accepted \<and> h' = h \<and> successor' = successor)"
proof -
  let ?w = "substr (edited_text (focus_text fp) editStart editEnd upd) (editStart - 3)
                   (min (editStart + length upd + 3)
                        (length (edited_text (focus_text fp) editStart editEnd upd)))"
  let ?g = "take 3 (drop (ngramOffset fp) (focus_text fp))"
  have w: "substr (edited_text (focus_text fp) editStart editEnd upd) (window_begin editStart)
             (window_end (edited_text (focus_text fp) editStart editEnd upd) editStart (length upd)) = ?w"
    by (simp add: window_begin_nat window_end_def ORDER_def)
  have g: "substr (focus_text fp) (ngramOffset fp) (ngramOffset fp + ORDER) = ?g"
    by (simp add: substr_def ORDER_def)
  show ?thesis
  proof (cases "str_find ?w ?g = None")
    case True
    then have no: "\<not> (\<exists>pre post. ?w = pre @ ?g @ post)"
      using str_find_occurs [of ?w ?g] by simp
    then show ?thesis by blast
  next
    case False
    then have "updateSuccessor md5 h origState successor fp editStart editEnd upd = Inr (False, h, successor)"
      using assms by (auto simp: updateSuccessor_def Let_def w g split: if_splits)
    with assms have "\<not> accepted \<and> h' = h \<and> successor' = successor" by simp
    then show ?thesis by blast
  qed
qed

text \<open>
  The text of an accepted successor. When the original state's diff-string materialises
  to the focus point's text (the operator framework takes the focus text from
  \<open>state.text().string()\<close>), the text is shorter than \<open>2 ^ 32\<close> and the replaced
  window is shorter than 256 characters (the \<open>Edit\<close> holds them as \<open>uint32_t\<close> and
  \<open>uint8_t\<close>), the successor's diff-string materialises to the proposed text, and its
  hash value is the digest of that text.
\<close>

lemma apply_edits_append:
  "apply_edits s (es @ [e]) =
     (case apply_edits s es of Inl err \<Rightarrow> Inl err | Inr t \<Rightarrow> apply_edits t [e])"
  by (induction es arbitrary: s) auto

lemma edited_text_split:
  assumes "es \<le> length t" and "ee \<le> length t"
  shows "take (es - 3) t
           @ substr (edited_text t es ee upd) (es - 3)
               (min (es + length upd + 3) (length (edited_text t es ee upd)))
           @ drop (min (ee + 3) (length t)) t
         = edited_text t es ee upd"
proof -
  let ?n = "edited_text t es ee upd"
  let ?e = "min (es + length upd + 3) (length ?n)"
  have len: "length ?n = es + length upd + (length t - ee)"
    using assms by (simp add: edited_text_def)
  have 1: "take (es - 3) ?n = take (es - 3) t"
    using assms by (simp add: edited_text_def)
  have 2: "drop ?e ?n = drop (min (ee + 3) (length t)) t"
  proof (cases "ee + 3 \<le> length t")
    case True
    then have "?e = es + length upd + 3" using len by simp
    moreover have "drop (es + length upd + 3) ?n = drop (ee + 3) t"
      using assms by (simp add: edited_text_def add.commute)
    ultimately show ?thesis using True by simp
  next
    case False
    then have "?e = length ?n" using len by simp
    with False show ?thesis by simp
  qed
  have le: "es - 3 \<le> ?e" unfolding len by arith
  have "drop ?e ?n = drop (?e - (es - 3)) (drop (es - 3) ?n)"
    using le by simp
  then have "substr ?n (es - 3) ?e @ drop ?e ?n = drop (es - 3) ?n"
    unfolding substr_def by (simp only: append_take_drop_id)
  then have "take (es - 3) ?n @ substr ?n (es - 3) ?e @ drop ?e ?n = ?n"
    by (simp only: append_take_drop_id)
  with 1 2 show ?thesis by (simp only:)
qed

lemma unat_edit_fields:
  assumes "a \<le> b" and "b < 2 ^ 32" and "b - a < 256"
  shows "unat (of_nat a :: 32 word) = a"
    and "unat (of_nat (b - a) :: 8 word) = b - a"
    and "unat ((of_nat a :: 32 word) + ucast (of_nat (b - a) :: 8 word)) = b"
proof -
  from assms show a: "unat (of_nat a :: 32 word) = a"
    by (subst unat_of_nat) simp
  from assms show c: "unat (of_nat (b - a) :: 8 word) = b - a"
    by (subst unat_of_nat) simp
  have u: "unat (ucast (of_nat (b - a) :: 8 word) :: 32 word) = b - a"
  proof -
    have "b - a < 2 ^ 32" using assms by simp
    then show ?thesis
      by (simp add: unsigned_ucast_eq c take_bit_nat_eq_self del: of_nat_diff)
  qed
  have "unat (of_nat a :: 32 word) + unat (ucast (of_nat (b - a) :: 8 word) :: 32 word) < 2 ^ 32"
    using assms a u by simp
  then have "unat ((of_nat a :: 32 word) + ucast (of_nat (b - a) :: 8 word))
             = unat (of_nat a :: 32 word) + unat (ucast (of_nat (b - a) :: 8 word) :: 32 word)"
    using unat_add_lem [of "of_nat a :: 32 word" "ucast (of_nat (b - a) :: 8 word)"] by simp
  with a u assms show "unat ((of_nat a :: 32 word) + ucast (of_nat (b - a) :: 8 word)) = b"
    by simp
qed

lemma updateSuccessor_materialises:
  assumes acc: "updateSuccessor md5 h orig succ fp es ee upd = Inr (True, h', succ')"
    and src: "DiffString_string sh (m_text orig) = Inr (focus_text fp)"
    and len: "length (focus_text fp) < 2 ^ 32"
    and small: "min (ee + 3) (length (focus_text fp)) - (es - 3) < 256"
  shows "DiffString_string sh (m_text succ') = Inr (edited_text (focus_text fp) es ee upd)
       \<and> hashValue (m_text succ') = md5 (edited_text (focus_text fp) es ee upd)"
proof -
  let ?t = "focus_text fp"
  let ?n = "edited_text ?t es ee upd"
  let ?ob = "es - 3"
  let ?oe = "min (ee + 3) (length ?t)"
  let ?w = "substr ?n ?ob (min (es + length upd + 3) (length ?n))"
  let ?e = "\<lparr>editPos = of_nat ?ob, charsToDelete = of_nat (?oe - ?ob), insertion = ?w\<rparr>"
  from acc have g: "ngramOffset fp + 3 \<le> length ?t" "es \<le> length ?t" "ee \<le> length ?t"
    by (auto simp: updateSuccessor_def Let_def ORDER_def split: if_splits)
  from acc g have le: "?ob \<le> ?oe"
    by (auto simp: updateSuccessor_def Let_def ORDER_def window_begin_nat window_end_def
             split: if_splits)
  from acc g have mt: "m_text succ' = DiffString_edit_text md5 (m_text orig) ?e ?n"
    by (auto simp: updateSuccessor_def Let_def ORDER_def window_begin_nat window_end_def
             split: if_splits sum.splits)
  have lt: "?oe < 2 ^ 32" using len by simp
  note u = unat_edit_fields [OF le lt small]
  have pos: "?ob < length ?t" using g by arith
  have "apply_edits ?t [?e] = Inr (take ?ob ?t @ ?w @ drop ?oe ?t)"
    using pos le by (simp add: u del: of_nat_diff)
  also have "\<dots> = Inr ?n"
    using edited_text_split [OF g(2) g(3), of upd] by simp
  finally have one: "apply_edits ?t [?e] = Inr ?n" .
  have "DiffString_string sh (m_text succ')
          = apply_edits (sh ! m_sourceString (m_text orig)) (m_edits (m_text orig) @ [?e])"
    by (simp add: mt DiffString_edit_text_def updateHash_def DiffString_string_def)
  also have "\<dots> = apply_edits ?t [?e]"
    using src by (simp add: apply_edits_append DiffString_string_def)
  finally have "DiffString_string sh (m_text succ') = Inr ?n" using one by simp
  moreover have "hashValue (m_text succ') = md5 ?n"
    by (simp add: mt DiffString_edit_text_def updateHash_def hashValue_def)
  ultimately show ?thesis by simp
qed

text \<open>
  So under these three conditions the text an accepted successor holds does not contain
  the focus 3-gram in the window around the edit. The third condition is not implied by
  the others: the word operators replace a whole word, whatever its length.
\<close>

lemma updateSuccessor_short_window_text_free_of_focus_ngram:
  assumes acc: "updateSuccessor md5 h orig succ fp es ee upd = Inr (True, h', succ')"
    and src: "DiffString_string sh (m_text orig) = Inr (focus_text fp)"
    and len: "length (focus_text fp) < 2 ^ 32"
    and small: "min (ee + 3) (length (focus_text fp)) - (es - 3) < 256"
  shows "\<exists>t'. DiffString_string sh (m_text succ') = Inr t'
            \<and> \<not> (\<exists>pre post.
                   substr t' (es - 3) (min (es + length upd + 3) (length t'))
                   = pre @ take 3 (drop (ngramOffset fp) (focus_text fp)) @ post)"
  using updateSuccessor_materialises [OF acc src len small] updateSuccessor_window_check [OF acc]
  by simp

text \<open>
  An edit whose start lies behind its end is accepted like any other: on \<open>abcdef\<close>
  with \<open>editStart = 4\<close>, \<open>editEnd = 2\<close> and the update \<open>X\<close>, the characters
  \<open>cd\<close> between the two positions occur on both sides of the update.
\<close>

lemma updateSuccessor_editStart_behind_editEnd:
  "map_sum id (\<lambda>(accepted, h', successor'). (accepted, m_text successor'))
     (updateSuccessor md5 [[(0x636261, 1), (0x646362, 1), (0x656463, 1), (0x666564, 1)]]
        \<lparr>m_text = DiffString_of_ptr md5 [''abcdef''] 0,
         m_ngramProfile =
           \<lparr>m_n = 4, m_size = 4, m_ngrams = 0, m_updates = [], m_lastNgramUpdates = []\<rparr>,
         m_mutableMetaData = \<lparr>jsd = None\<rparr>\<rparr>
        \<lparr>m_text = \<lparr>m_sourceString = 1, m_edits = [], m_hashValue = []\<rparr>,
         m_ngramProfile =
           \<lparr>m_n = 0, m_size = 0, m_ngrams = 0, m_updates = [], m_lastNgramUpdates = []\<rparr>,
         m_mutableMetaData = \<lparr>jsd = None\<rparr>\<rparr>
        \<lparr>ngramOffset = 0, focus_text = ''abcdef''\<rparr> 4 2 ''X'')
   = Inr (True,
          \<lparr>m_sourceString = 0,
           m_edits = [\<lparr>editPos = 1, charsToDelete = 4, insertion = ''bcdXcde''\<rparr>],
           m_hashValue = md5 ''abcdXcdef''\<rparr>)
   \<and> DiffString_string [''abcdef'']
        \<lparr>m_sourceString = 0,
         m_edits = [\<lparr>editPos = 1, charsToDelete = 4, insertion = ''bcdXcde''\<rparr>],
         m_hashValue = md5 ''abcdXcdef''\<rparr>
     = Inr ''abcdXcdef''"
  by code_simp

text \<open>
  Claim C3 fails in the code when the replaced window is 256 characters long. The text
  is \<open>abc\<close> followed by 253 times \<open>x\<close>, one word of 256 characters; the focus 3-gram is
  \<open>abc\<close> at offset 0, and the edit replaces the whole word by \<open>Z\<close>, as a word operator
  does. The proposed text is \<open>Z\<close>, its window holds no \<open>abc\<close>, and \<open>updateSuccessor\<close>
  returns \<open>true\<close>. The number of characters to delete, 256, is cast to \<open>uint8_t\<close> and
  becomes 0, so the edit that the successor's diff-string records inserts \<open>Z\<close> and
  deletes nothing: the text the accepted successor holds is \<open>Z\<close> followed by the whole
  original text, and its window from 3 before the edit position to 3 behind the inserted
  \<open>Z\<close> is \<open>Zabc\<close>, which contains the focus 3-gram. (The successor's hash value is the
  digest of \<open>Z\<close>, and its profile has lost all 254 3-grams.)
\<close>

theorem updateSuccessor_accepts_text_holding_focus_ngram:
  "generateFromString stripPosAnnotations normalizeText []
     \<lparr>m_n = 0, m_size = 0, m_ngrams = 0, m_updates = [], m_lastNgramUpdates = []\<rparr>
     (''abc'' @ replicate 253 CHR ''x'') SKIP_NORMALIZATION
   = (True, [], [[(0x636261, 1), (0x786362, 1), (0x787863, 1), (0x787878, 251)]],
      \<lparr>m_n = 254, m_size = 4, m_ngrams = 0, m_updates = [], m_lastNgramUpdates = []\<rparr>)
   \<and> map_sum id (\<lambda>(accepted, h', successor').
                   (accepted, m_text successor', n_of (m_ngramProfile successor')))
       (updateSuccessor md5 [[(0x636261, 1), (0x786362, 1), (0x787863, 1), (0x787878, 251)]]
          \<lparr>m_text = DiffString_of_ptr md5 [''abc'' @ replicate 253 CHR ''x''] 0,
           m_ngramProfile =
             \<lparr>m_n = 254, m_size = 4, m_ngrams = 0, m_updates = [], m_lastNgramUpdates = []\<rparr>,
           m_mutableMetaData = \<lparr>jsd = None\<rparr>\<rparr>
          \<lparr>m_text = \<lparr>m_sourceString = 1, m_edits = [], m_hashValue = []\<rparr>,
           m_ngramProfile =
             \<lparr>m_n = 0, m_size = 0, m_ngrams = 0, m_updates = [], m_lastNgramUpdates = []\<rparr>,
           m_mutableMetaData = \<lparr>jsd = None\<rparr>\<rparr>
          \<lparr>ngramOffset = 0, focus_text = ''abc'' @ replicate 253 CHR ''x''\<rparr>
          0 256 ''Z'')
     = Inr (True,
            \<lparr>m_sourceString = 0,
             m_edits = [\<lparr>editPos = 0, charsToDelete = 0, insertion = ''Z''\<rparr>],
             m_hashValue = md5 ''Z''\<rparr>,
            0)
   \<and> DiffString_string [''abc'' @ replicate 253 CHR ''x'']
        \<lparr>m_sourceString = 0,
         m_edits = [\<lparr>editPos = 0, charsToDelete = 0, insertion = ''Z''\<rparr>],
         m_hashValue = md5 ''Z''\<rparr>
     = Inr (''Zabc'' @ replicate 253 CHR ''x'')
   \<and> substr (''Zabc'' @ replicate 253 CHR ''x'') (window_begin 0)
        (window_end (''Zabc'' @ replicate 253 CHR ''x'') 0 (length ''Z''))
     = ''Zabc''
   \<and> str_find ''Zabc'' ''abc'' = Some 1"
  by code_simp

section \<open>Clones of a profile\<close>

text \<open>
  The mutating operations of a profile as a command language, and what a reader can
  observe of a profile: \<open>freq\<close> of every n-gram, \<open>n()\<close>, \<open>size()\<close> and the iteration.
\<close>

datatype ProfileOp = Update "NgramUpdate list" | UpdateFromStringRange string string | ApplyOp

fun profile_step :: "NgramHeap \<Rightarrow> NgramProfile \<Rightarrow> ProfileOp \<Rightarrow> error + NgramHeap \<times> NgramProfile" where
  "profile_step h p (Update updates) = update h p updates"
| "profile_step h p (UpdateFromStringRange oldRange newRange) = updateFromStringRange h p oldRange newRange"
| "profile_step h p ApplyOp = Inr (apply_profile h p)"

fun profile_run :: "NgramHeap \<Rightarrow> NgramProfile \<Rightarrow> ProfileOp list \<Rightarrow> error + NgramHeap \<times> NgramProfile" where
  "profile_run h p [] = Inr (h, p)"
| "profile_run h p (x # xs) =
     (case profile_step h p x of
        Inl e \<Rightarrow> Inl e
      | Inr (h', p') \<Rightarrow> profile_run h' p' xs)"

definition observe ::
  "NgramHeap \<Rightarrow> NgramProfile \<Rightarrow> (Ngram \<Rightarrow> 64 word) \<times> 64 word \<times> 64 word \<times> (error + NgramPair list)" where
  "observe h p = (freq h p, n_of p, size_of p, iterate h p)"

lemma apply_profile_extends: "apply_profile h p = (h', p') \<Longrightarrow> \<exists>ext. h' = h @ ext"
  by (auto simp: apply_profile_def Let_def)

lemma update_extends: "update h p us = Inr (h', p') \<Longrightarrow> \<exists>ext. h' = h @ ext"
  by (auto simp: update_def apply_profile_def Let_def split: sum.splits if_splits)

lemma updateFromStringRange_extends:
  "updateFromStringRange h p old new = Inr (h', p') \<Longrightarrow> \<exists>ext. h' = h @ ext"
  by (auto simp: updateFromStringRange_def split: sum.splits dest: update_extends)

lemma profile_step_extends: "profile_step h p x = Inr (h', p') \<Longrightarrow> \<exists>ext. h' = h @ ext"
  by (cases x) (auto dest: update_extends updateFromStringRange_extends apply_profile_extends)

lemma profile_run_extends: "profile_run h p xs = Inr (h', p') \<Longrightarrow> \<exists>ext. h' = h @ ext"
proof (induction xs arbitrary: h p)
  case Nil
  then show ?case by simp
next
  case (Cons x xs)
  from Cons.prems obtain h1 p1
    where s: "profile_step h p x = Inr (h1, p1)" and r: "profile_run h1 p1 xs = Inr (h', p')"
    by (auto split: sum.splits)
  from profile_step_extends [OF s] obtain e1 where "h1 = h @ e1" by blast
  moreover from Cons.IH [OF r] obtain e2 where "h' = h1 @ e2" by blast
  ultimately have "h' = h @ (e1 @ e2)" by simp
  then show ?case by blast
qed

lemma observe_extends: "m_ngrams q < length h \<Longrightarrow> observe (h @ ext) q = observe h q"
  by (simp add: observe_def fun_eq_iff freq_def iterate_def begin_it_def nth_append cong: option.case_cong)

lemma observe_clone: "observe h (clone p) = observe h p"
  by (simp add: observe_def fun_eq_iff clone_def freq_def n_of_def size_of_def iterate_def begin_it_def cong: option.case_cong)

text \<open>
  Claim C8. For a profile \<open>P\<close> with a base map, \<open>Q = P.clone()\<close> has the observable
  values of \<open>P\<close>. Whatever sequence of \<open>update\<close>, \<open>updateFromStringRange\<close> and \<open>apply\<close>
  calls is then made on \<open>Q\<close>, the observable values of \<open>P\<close> are afterwards what they
  were, and the calls made on \<open>P\<close> leave those of \<open>Q\<close> as they were: the operations
  only read the shared base map, and \<open>apply\<close> puts its result in a fresh one.
\<close>

theorem clone_is_independent:
  assumes "m_ngrams p < length h"
  shows "observe h (clone p) = observe h p
       \<and> (\<forall>xs h' q'. profile_run h (clone p) xs = Inr (h', q') \<longrightarrow> observe h' p = observe h p)
       \<and> (\<forall>xs h' p'. profile_run h p xs = Inr (h', p') \<longrightarrow> observe h' (clone p) = observe h (clone p))"
proof (intro conjI allI impI)
  show "observe h (clone p) = observe h p" by (rule observe_clone)
next
  fix xs h' q'
  assume "profile_run h (clone p) xs = Inr (h', q')"
  from profile_run_extends [OF this] obtain ext where "h' = h @ ext" by blast
  with assms show "observe h' p = observe h p" by (simp add: observe_extends)
next
  fix xs h' p'
  assume "profile_run h p xs = Inr (h', p')"
  from profile_run_extends [OF this] obtain ext where "h' = h @ ext" by blast
  moreover have "m_ngrams (clone p) < length h" using assms by (simp add: clone_def)
  ultimately show "observe h' (clone p) = observe h (clone p)" by (simp add: observe_extends)
qed

text \<open>
  The theorem for the profile of \<open>abcd\<close>: its clone is updated, applied and updated
  from a string range; the original still iterates \<open>abc\<close> and \<open>bcd\<close>.
\<close>

theorem clone_is_independent_witness:
  "profile_run [[(6513249, 1), (6579042, 1)]]
     (clone \<lparr>m_n = 2, m_size = 2, m_ngrams = 0, m_updates = [], m_lastNgramUpdates = []\<rparr>)
     [Update [(6513249, - 1), (7, 2)], ApplyOp, UpdateFromStringRange ''bcd'' ''xyz'']
   = Inr ([[(6513249, 1), (6579042, 1)], [(7, 2), (6579042, 1)]],
          \<lparr>m_n = 3, m_size = 2, m_ngrams = 1, m_updates = [(6579042, 0), (8026488, 1)],
           m_lastNgramUpdates = [(6579042, - 1), (8026488, 1)]\<rparr>)
   \<and> iterate [[(6513249, 1), (6579042, 1)], [(7, 2), (6579042, 1)]]
        \<lparr>m_n = 2, m_size = 2, m_ngrams = 0, m_updates = [], m_lastNgramUpdates = []\<rparr>
      = Inr [(6513249, 1), (6579042, 1)]
   \<and> iterate [[(6513249, 1), (6579042, 1)], [(7, 2), (6579042, 1)]]
        \<lparr>m_n = 3, m_size = 2, m_ngrams = 1, m_updates = [(6579042, 0), (8026488, 1)],
         m_lastNgramUpdates = [(6579042, - 1), (8026488, 1)]\<rparr>
      = Inr [(7, 2), (8026488, 1)]"
proof -
  have v: "m_ngrams \<lparr>m_n = 2, m_size = 2, m_ngrams = 0, m_updates = [], m_lastNgramUpdates = []\<rparr>
             < length [[(6513249 :: Ngram, 1 :: 64 word), (6579042, 1)]]"
    by simp
  have a: "profile_run [[(6513249, 1), (6579042, 1)]]
     (clone \<lparr>m_n = 2, m_size = 2, m_ngrams = 0, m_updates = [], m_lastNgramUpdates = []\<rparr>)
     [Update [(6513249, - 1), (7, 2)], ApplyOp, UpdateFromStringRange ''bcd'' ''xyz'']
   = Inr ([[(6513249, 1), (6579042, 1)], [(7, 2), (6579042, 1)]],
          \<lparr>m_n = 3, m_size = 2, m_ngrams = 1, m_updates = [(6579042, 0), (8026488, 1)],
           m_lastNgramUpdates = [(6579042, - 1), (8026488, 1)]\<rparr>)"
    by code_simp
  have b: "iterate [[(6513249, 1), (6579042, 1)], [(7, 2), (6579042, 1)]]
        \<lparr>m_n = 2, m_size = 2, m_ngrams = 0, m_updates = [], m_lastNgramUpdates = []\<rparr>
      = Inr [(6513249, 1), (6579042, 1)]"
    by code_simp
  have c: "iterate [[(6513249, 1), (6579042, 1)], [(7, 2), (6579042, 1)]]
        \<lparr>m_n = 3, m_size = 2, m_ngrams = 1, m_updates = [(6579042, 0), (8026488, 1)],
         m_lastNgramUpdates = [(6579042, - 1), (8026488, 1)]\<rparr>
      = Inr [(7, 2), (8026488, 1)]"
    by code_simp
  from clone_is_independent [OF v] a b c show ?thesis
    by blast
qed

section \<open>Properties of the OPEN list\<close>

definition open_inv :: "('s \<Rightarrow> string) \<Rightarrow> (nat \<Rightarrow> 's Node) \<Rightarrow> OpenList \<Rightarrow> bool" where
  "open_inv compute_hash st ol \<longleftrightarrow>
     is_heap (HigherCost st) (nodes_heap ol) \<and> distinct (nodes_heap ol) \<and>
     (\<forall>k a. nodes_map ol k = Some a \<longleftrightarrow>
        a \<in> set (nodes_heap ol) \<and> compute_hash (state (st a)) = k)"

lemma HigherCost_swo: "strict_weak_order (HigherCost st)"
  by (auto simp: strict_weak_order_def HigherCost_def)

lemma swo_irrefl: "strict_weak_order cmp \<Longrightarrow> \<not> cmp a a"
  unfolding strict_weak_order_def by blast

lemma swo_negtrans: "strict_weak_order cmp \<Longrightarrow> \<not> cmp a b \<Longrightarrow> \<not> cmp b c \<Longrightarrow> \<not> cmp a c"
  unfolding strict_weak_order_def by blast

lemma heap_front_least:
  assumes "strict_weak_order cmp" and "is_heap cmp v"
  shows "i < length v \<Longrightarrow> \<not> cmp (v ! 0) (v ! i)"
proof (induction i rule: less_induct)
  case (less i)
  show ?case
  proof (cases "i = 0")
    case True
    then show ?thesis using swo_irrefl [OF assms(1)] by simp
  next
    case False
    then have p: "(i - 1) div 2 < i" by arith
    with less.prems have "(i - 1) div 2 < length v" by simp
    with less.IH [OF p] have 1: "\<not> cmp (v ! 0) (v ! ((i - 1) div 2))" by simp
    from assms(2) False less.prems have 2: "\<not> cmp (v ! ((i - 1) div 2)) (v ! i)"
      by (simp add: is_heap_def)
    from swo_negtrans [OF assms(1) 1 2] show ?thesis .
  qed
qed

lemma heap_hd_least:
  assumes "strict_weak_order cmp" and "is_heap cmp v" and "w \<in> set v"
  shows "\<not> cmp (hd v) w"
proof -
  from assms(3) obtain i where i: "i < length v" "v ! i = w" by (auto simp: in_set_conv_nth)
  then have "v \<noteq> []" by auto
  then have "hd v = v ! 0" by (simp add: hd_conv_nth)
  with heap_front_least [OF assms(1,2) i(1)] i(2) show ?thesis by simp
qed

lemma open_inv_empty: "open_inv compute_hash st empty_open"
  by (simp add: open_inv_def empty_open_def is_heap_def)

lemma open_inv_pushOrUpdate:
  assumes ph: "push_heap_spec push_heap" and mh: "make_heap_spec make_heap"
    and inv: "open_inv compute_hash st ol"
    and res: "pushOrUpdate push_heap make_heap compute_hash st ol node = (r, st', ol')"
  shows "open_inv compute_hash st' ol'"
proof (cases "nodes_map ol (compute_hash (state (st node)))")
  case None
  let ?v = "nodes_heap ol @ [node]"
  from None res have st': "st' = st"
    and ol': "ol' = ol\<lparr>nodes_map := (nodes_map ol)(compute_hash (state (st node)) \<mapsto> node),
                       nodes_heap := push_heap (HigherCost st) ?v\<rparr>"
    by (auto simp: pushOrUpdate_def Let_def)
  from inv have h: "is_heap (HigherCost st) (butlast ?v)" by (simp add: open_inv_def)
  from ph HigherCost_swo [of st] h
  have ph': "is_heap (HigherCost st) (push_heap (HigherCost st) ?v)"
            "mset (push_heap (HigherCost st) ?v) = mset ?v"
    unfolding push_heap_spec_def by blast+
  have notin: "node \<notin> set (nodes_heap ol)"
  proof
    assume "node \<in> set (nodes_heap ol)"
    with inv have "nodes_map ol (compute_hash (state (st node))) = Some node"
      unfolding open_inv_def by blast
    with None show False by simp
  qed
  from ph'(2) have "set (push_heap (HigherCost st) ?v) = set ?v"
    by (rule mset_eq_setD)
  then have s: "set (push_heap (HigherCost st) ?v) = insert node (set (nodes_heap ol))"
    by simp
  from inv notin have "distinct ?v" by (simp add: open_inv_def)
  with ph'(2) have d: "distinct (push_heap (HigherCost st) ?v)"
    using mset_eq_imp_distinct_iff by blast
  have nohash: "\<And>a. a \<in> set (nodes_heap ol) \<Longrightarrow>
      compute_hash (state (st a)) \<noteq> compute_hash (state (st node))"
  proof
    fix a assume "a \<in> set (nodes_heap ol)"
      and "compute_hash (state (st a)) = compute_hash (state (st node))"
    with inv have "nodes_map ol (compute_hash (state (st node))) = Some a"
      unfolding open_inv_def by blast
    with None show False by simp
  qed
  have m: "\<And>k a. (nodes_map ol k = Some a) \<longleftrightarrow>
      (a \<in> set (nodes_heap ol) \<and> compute_hash (state (st a)) = k)"
    using inv unfolding open_inv_def by blast
  have "\<forall>k a. (((nodes_map ol)(compute_hash (state (st node)) \<mapsto> node)) k = Some a) \<longleftrightarrow>
      (a \<in> insert node (set (nodes_heap ol)) \<and> compute_hash (state (st a)) = k)"
    using nohash by (auto simp: m)
  then show ?thesis
    unfolding st' ol' open_inv_def by (simp add: ph'(1) s d)
next
  case (Some existing)
  from inv Some have ex: "existing \<in> set (nodes_heap ol)"
    "compute_hash (state (st existing)) = compute_hash (state (st node))"
    by (auto simp: open_inv_def)
  show ?thesis
  proof (cases "costG (st existing) > costG (st node)")
    case True
    let ?st = "st(existing := st node)"
    from Some True res have st': "st' = ?st"
      and ol': "ol' = ol\<lparr>nodes_heap := make_heap (HigherCost ?st) (nodes_heap ol)\<rparr>"
      by (auto simp: pushOrUpdate_def Let_def)
    from mh HigherCost_swo [of ?st]
    have mh': "is_heap (HigherCost ?st) (make_heap (HigherCost ?st) (nodes_heap ol))"
              "mset (make_heap (HigherCost ?st) (nodes_heap ol)) = mset (nodes_heap ol)"
      unfolding make_heap_spec_def by blast+
    from mh'(2) have s: "set (make_heap (HigherCost ?st) (nodes_heap ol)) = set (nodes_heap ol)"
      by (rule mset_eq_setD)
    from inv have "distinct (nodes_heap ol)" by (simp add: open_inv_def)
    with mh'(2) have d: "distinct (make_heap (HigherCost ?st) (nodes_heap ol))"
      using mset_eq_imp_distinct_iff by blast
    have hs: "\<And>a. compute_hash (state (?st a)) = compute_hash (state (st a))"
      using ex(2) by simp
    have m: "\<And>k a. (nodes_map ol k = Some a) \<longleftrightarrow>
        (a \<in> set (nodes_heap ol) \<and> compute_hash (state (st a)) = k)"
      using inv unfolding open_inv_def by blast
    have "\<forall>k a. (nodes_map ol k = Some a) \<longleftrightarrow>
        (a \<in> set (nodes_heap ol) \<and> compute_hash (state (?st a)) = k)"
      unfolding hs using m by blast
    then show ?thesis
      unfolding st' ol' open_inv_def by (simp add: mh'(1) s d del: fun_upd_apply)
  next
    case False
    with Some res have "st' = st" "ol' = ol"
      by (auto simp: pushOrUpdate_def Let_def)
    with inv show ?thesis by simp
  qed
qed

lemma pop_facts:
  assumes pp: "pop_heap_spec pop_heap"
    and inv: "open_inv compute_hash st ol"
    and res: "OpenList_pop pop_heap compute_hash st ol = Inr (v, ol')"
  shows "open_inv compute_hash st ol'"
    and "mset (nodes_heap ol) = mset (nodes_heap ol') + {#v#}"
    and "\<forall>w \<in> set (nodes_heap ol). costF (st v) \<le> costF (st w)"
proof -
  let ?r = "pop_heap (HigherCost st) (nodes_heap ol)"
  from res have ne: "nodes_heap ol \<noteq> []" by (auto simp: OpenList_pop_def split: if_splits)
  with res have v: "v = last ?r"
    and ol': "ol' = ol\<lparr>nodes_heap := butlast ?r,
                       nodes_map := (nodes_map ol)(compute_hash (state (st (last ?r))) := None)\<rparr>"
    by (auto simp: OpenList_pop_def Let_def)
  from inv have h: "is_heap (HigherCost st) (nodes_heap ol)" by (simp add: open_inv_def)
  from pp HigherCost_swo [of st] ne h
  have r: "?r \<noteq> []" "last ?r = hd (nodes_heap ol)" "is_heap (HigherCost st) (butlast ?r)"
          "mset ?r = mset (nodes_heap ol)"
    unfolding pop_heap_spec_def by blast+
  from r(1) have split: "butlast ?r @ [last ?r] = ?r" by simp
  have "mset (butlast ?r @ [last ?r]) = mset (butlast ?r) + {#last ?r#}" by simp
  then have "mset ?r = mset (butlast ?r) + {#last ?r#}" unfolding split .
  with r(4) show m: "mset (nodes_heap ol) = mset (nodes_heap ol') + {#v#}"
    by (simp add: v ol')
  from inv have "distinct (nodes_heap ol)" by (simp add: open_inv_def)
  with r(4) have d: "distinct ?r" using mset_eq_imp_distinct_iff by blast
  then have "distinct (butlast ?r @ [last ?r])" unfolding split .
  then have d': "distinct (butlast ?r)" "last ?r \<notin> set (butlast ?r)"
    by simp_all
  from r(4) have s: "set ?r = set (nodes_heap ol)" by (rule mset_eq_setD)
  have "set (butlast ?r @ [last ?r]) = insert (last ?r) (set (butlast ?r))" by simp
  then have s': "set ?r = insert (last ?r) (set (butlast ?r))" unfolding split .
  have inj: "\<And>a b. a \<in> set (nodes_heap ol) \<Longrightarrow> b \<in> set (nodes_heap ol) \<Longrightarrow>
      compute_hash (state (st a)) = compute_hash (state (st b)) \<Longrightarrow> a = b"
    using inv unfolding open_inv_def by (metis option.inject)
  show "open_inv compute_hash st ol'"
    unfolding open_inv_def ol'
  proof (intro conjI allI)
    show "is_heap (HigherCost st) (nodes_heap (ol\<lparr>nodes_heap := butlast ?r,
                       nodes_map := (nodes_map ol)(compute_hash (state (st (last ?r))) := None)\<rparr>))"
      using r(3) by simp
    show "distinct (nodes_heap (ol\<lparr>nodes_heap := butlast ?r,
                       nodes_map := (nodes_map ol)(compute_hash (state (st (last ?r))) := None)\<rparr>))"
      using d'(1) by simp
    fix k a
    show "(nodes_map (ol\<lparr>nodes_heap := butlast ?r,
                       nodes_map := (nodes_map ol)(compute_hash (state (st (last ?r))) := None)\<rparr>) k = Some a)
          \<longleftrightarrow> (a \<in> set (nodes_heap (ol\<lparr>nodes_heap := butlast ?r,
                       nodes_map := (nodes_map ol)(compute_hash (state (st (last ?r))) := None)\<rparr>))
               \<and> compute_hash (state (st a)) = k)"
    proof (cases "k = compute_hash (state (st (last ?r)))")
      case True
      have "\<not> (a \<in> set (butlast ?r) \<and> compute_hash (state (st a)) = k)"
      proof
        assume a: "a \<in> set (butlast ?r) \<and> compute_hash (state (st a)) = k"
        then have "a \<in> set (nodes_heap ol)" using s s' by auto
        moreover have "last ?r \<in> set (nodes_heap ol)" using s s' by auto
        ultimately have "a = last ?r" using inj a True by blast
        with a d'(2) show False by simp
      qed
      with True show ?thesis by simp
    next
      case False
      have "(nodes_map ol k = Some a) \<longleftrightarrow> (a \<in> set (nodes_heap ol) \<and> compute_hash (state (st a)) = k)"
        using inv unfolding open_inv_def by blast
      also have "\<dots> \<longleftrightarrow> (a \<in> set (butlast ?r) \<and> compute_hash (state (st a)) = k)"
      proof -
        have "compute_hash (state (st a)) = k \<Longrightarrow> a \<noteq> last ?r" using False by auto
        moreover have "a \<in> set (nodes_heap ol) \<longleftrightarrow> a = last ?r \<or> a \<in> set (butlast ?r)"
          using s s' by auto
        ultimately show ?thesis by blast
      qed
      finally show ?thesis using False by simp
    qed
  qed
  show "\<forall>w \<in> set (nodes_heap ol). costF (st v) \<le> costF (st w)"
  proof
    fix w assume "w \<in> set (nodes_heap ol)"
    from heap_hd_least [OF HigherCost_swo h this] r(2) v
    show "costF (st v) \<le> costF (st w)" by (simp add: HigherCost_def)
  qed
qed

lemma open_inv_step:
  assumes "push_heap_spec push_heap" and "pop_heap_spec pop_heap" and "make_heap_spec make_heap"
    and "open_inv compute_hash st ol"
    and "open_step push_heap pop_heap make_heap compute_hash (st, ol) x = Inr (st', ol')"
  shows "open_inv compute_hash st' ol'"
proof (cases x)
  case (PushOrUpdate node)
  obtain r st1 ol1 where p: "pushOrUpdate push_heap make_heap compute_hash st ol node = (r, st1, ol1)"
    by (metis prod_cases3)
  with assms(5) PushOrUpdate have "st' = st1" "ol' = ol1" by simp_all
  with open_inv_pushOrUpdate [OF assms(1) assms(3) assms(4) p] show ?thesis by simp
next
  case Pop
  with assms(5) obtain v where p: "OpenList_pop pop_heap compute_hash st ol = Inr (v, ol')"
    and "st' = st"
    by (auto split: sum.splits)
  with pop_facts(1) [OF assms(2) assms(4) p] show ?thesis by simp
qed

lemma open_inv_run:
  assumes "push_heap_spec push_heap" and "pop_heap_spec pop_heap" and "make_heap_spec make_heap"
  shows "open_inv compute_hash (fst s) (snd s) \<Longrightarrow>
         open_run push_heap pop_heap make_heap compute_hash s xs = Inr (st', ol') \<Longrightarrow>
         open_inv compute_hash st' ol'"
proof (induction xs arbitrary: s)
  case Nil
  then show ?case by auto
next
  case (Cons x xs)
  from Cons.prems(2) obtain s1
    where s: "open_step push_heap pop_heap make_heap compute_hash s x = Inr s1"
      and r: "open_run push_heap pop_heap make_heap compute_hash s1 xs = Inr (st', ol')"
    by (auto split: sum.splits)
  from s have "open_step push_heap pop_heap make_heap compute_hash (fst s, snd s) x = Inr (fst s1, snd s1)"
    by simp
  from open_inv_step [OF assms Cons.prems(1) this] have "open_inv compute_hash (fst s1) (snd s1)" .
  from Cons.IH [OF this r] show ?case .
qed


text \<open>
  Claim C4. Take any sequence of \<open>pushOrUpdate\<close> and \<open>pop\<close> calls that starts from an
  empty OPEN list and returns (no \<open>pop\<close> on an empty list), with heap algorithms that
  meet their contracts. In the state reached:
  \<^item> a \<open>pop\<close> removes one node, and its \<open>costF\<close> is at most the \<open>costF\<close> of every
    node that stays in OPEN;
  \<^item> \<open>pushOrUpdate\<close> returns \<open>true\<close> exactly when no node of OPEN has the state hash
    of the new node, and then the new node is added and no node is changed;
  \<^item> when a node \<open>w\<close> of OPEN has that hash, OPEN keeps its nodes, and \<open>w\<close> is
    overwritten by the new node exactly when the new node's \<open>costG\<close> is strictly lower.
\<close>

theorem open_list_pop_least_and_push_semantics:
  assumes "push_heap_spec push_heap" and "pop_heap_spec pop_heap" and "make_heap_spec make_heap"
    and "open_run push_heap pop_heap make_heap compute_hash (st0, empty_open) xs = Inr (st, ol)"
  shows "(\<forall>v ol'. OpenList_pop pop_heap compute_hash st ol = Inr (v, ol') \<longrightarrow>
            mset (nodes_heap ol) = mset (nodes_heap ol') + {#v#} \<and>
            (\<forall>w \<in> set (nodes_heap ol'). costF (st v) \<le> costF (st w)))
       \<and> (\<forall>node. fst (pushOrUpdate push_heap make_heap compute_hash st ol node) \<longleftrightarrow>
            \<not> (\<exists>w \<in> set (nodes_heap ol).
                  compute_hash (state (st w)) = compute_hash (state (st node))))
       \<and> (\<forall>node st' ol'.
            pushOrUpdate push_heap make_heap compute_hash st ol node = (True, st', ol') \<longrightarrow>
            st' = st \<and> mset (nodes_heap ol') = mset (nodes_heap ol) + {#node#})
       \<and> (\<forall>node st' ol' w.
            pushOrUpdate push_heap make_heap compute_hash st ol node = (False, st', ol') \<and>
            w \<in> set (nodes_heap ol) \<and>
            compute_hash (state (st w)) = compute_hash (state (st node)) \<longrightarrow>
            mset (nodes_heap ol') = mset (nodes_heap ol) \<and>
            st' = (if costG (st node) < costG (st w) then st(w := st node) else st))"
proof -
  have "open_inv compute_hash (fst (st0, empty_open)) (snd (st0, empty_open))"
    by (simp add: open_inv_empty)
  from open_inv_run [OF assms(1-3) this assms(4)] have inv: "open_inv compute_hash st ol" .
  have m: "\<And>k a. (nodes_map ol k = Some a) \<longleftrightarrow>
      (a \<in> set (nodes_heap ol) \<and> compute_hash (state (st a)) = k)"
    using inv unfolding open_inv_def by blast
  have A: "\<forall>v ol'. OpenList_pop pop_heap compute_hash st ol = Inr (v, ol') \<longrightarrow>
            mset (nodes_heap ol) = mset (nodes_heap ol') + {#v#} \<and>
            (\<forall>w \<in> set (nodes_heap ol'). costF (st v) \<le> costF (st w))"
  proof (intro allI impI conjI ballI)
    fix v ol' assume p: "OpenList_pop pop_heap compute_hash st ol = Inr (v, ol')"
    from pop_facts(2) [OF assms(2) inv p]
    show e: "mset (nodes_heap ol) = mset (nodes_heap ol') + {#v#}" .
    fix w assume "w \<in> set (nodes_heap ol')"
    then have "w \<in># mset (nodes_heap ol)" unfolding e by simp
    then have "w \<in> set (nodes_heap ol)" by simp
    with pop_facts(3) [OF assms(2) inv p] show "costF (st v) \<le> costF (st w)" by blast
  qed
  have B: "\<forall>node. fst (pushOrUpdate push_heap make_heap compute_hash st ol node) \<longleftrightarrow>
            \<not> (\<exists>w \<in> set (nodes_heap ol).
                  compute_hash (state (st w)) = compute_hash (state (st node)))"
  proof
    fix node
    have "fst (pushOrUpdate push_heap make_heap compute_hash st ol node)
          \<longleftrightarrow> nodes_map ol (compute_hash (state (st node))) = None"
      by (simp add: pushOrUpdate_def Let_def split: option.splits)
    also have "\<dots> \<longleftrightarrow> \<not> (\<exists>w \<in> set (nodes_heap ol).
                  compute_hash (state (st w)) = compute_hash (state (st node)))"
      using m by (metis not_Some_eq)
    finally show "fst (pushOrUpdate push_heap make_heap compute_hash st ol node) \<longleftrightarrow>
            \<not> (\<exists>w \<in> set (nodes_heap ol).
                  compute_hash (state (st w)) = compute_hash (state (st node)))" .
  qed
  have C: "\<forall>node st' ol'.
            pushOrUpdate push_heap make_heap compute_hash st ol node = (True, st', ol') \<longrightarrow>
            st' = st \<and> mset (nodes_heap ol') = mset (nodes_heap ol) + {#node#}"
  proof (intro allI impI)
    fix node st' ol'
    assume p: "pushOrUpdate push_heap make_heap compute_hash st ol node = (True, st', ol')"
    then have n: "nodes_map ol (compute_hash (state (st node))) = None"
      by (auto simp: pushOrUpdate_def Let_def split: option.splits if_splits)
    with p have st': "st' = st"
      and ol': "nodes_heap ol' = push_heap (HigherCost st) (nodes_heap ol @ [node])"
      by (auto simp: pushOrUpdate_def Let_def)
    from inv have "is_heap (HigherCost st) (butlast (nodes_heap ol @ [node]))"
      by (simp add: open_inv_def)
    with assms(1) HigherCost_swo [of st]
    have "mset (push_heap (HigherCost st) (nodes_heap ol @ [node])) = mset (nodes_heap ol @ [node])"
      unfolding push_heap_spec_def by blast
    with st' ol' show "st' = st \<and> mset (nodes_heap ol') = mset (nodes_heap ol) + {#node#}"
      by simp
  qed
  have D: "\<forall>node st' ol' w.
            pushOrUpdate push_heap make_heap compute_hash st ol node = (False, st', ol') \<and>
            w \<in> set (nodes_heap ol) \<and>
            compute_hash (state (st w)) = compute_hash (state (st node)) \<longrightarrow>
            mset (nodes_heap ol') = mset (nodes_heap ol) \<and>
            st' = (if costG (st node) < costG (st w) then st(w := st node) else st)"
  proof (intro allI impI)
    fix node st' ol' w
    assume a: "pushOrUpdate push_heap make_heap compute_hash st ol node = (False, st', ol') \<and>
            w \<in> set (nodes_heap ol) \<and>
            compute_hash (state (st w)) = compute_hash (state (st node))"
    then have e: "nodes_map ol (compute_hash (state (st node))) = Some w"
      using m by blast
    show "mset (nodes_heap ol') = mset (nodes_heap ol) \<and>
            st' = (if costG (st node) < costG (st w) then st(w := st node) else st)"
    proof (cases "costG (st node) < costG (st w)")
      case True
      with a e have st': "st' = st(w := st node)"
        and ol': "nodes_heap ol' = make_heap (HigherCost (st(w := st node))) (nodes_heap ol)"
        by (auto simp: pushOrUpdate_def Let_def)
      from assms(3) HigherCost_swo [of "st(w := st node)"]
      have "mset (make_heap (HigherCost (st(w := st node))) (nodes_heap ol)) = mset (nodes_heap ol)"
        unfolding make_heap_spec_def by blast
      with st' ol' True show ?thesis by simp
    next
      case False
      with a e have "st' = st" "ol' = ol"
        by (auto simp: pushOrUpdate_def Let_def)
      with False show ?thesis by simp
    qed
  qed
  from A B C D show ?thesis by blast
qed

text \<open>
  The sorting implementation meets the three contracts, and the theorem applies to a
  run with it: node 0 (state \<open>a\<close>, g = 3) and node 1 (state \<open>b\<close>, g = 1, h = 1) are
  pushed, then node 2 (state \<open>a\<close>, g = 2) overwrites node 0; \<open>pop\<close> returns node 1.
\<close>

lemma mset_insert_desc: "mset (insert_desc cmp x ys) = add_mset x (mset ys)"
  by (induction ys) auto

lemma mset_sort_desc: "mset (sort_desc cmp v) = mset v"
  by (induction v) (auto simp: sort_desc_def mset_insert_desc)

lemma set_insert_desc: "set (insert_desc cmp x ys) = insert x (set ys)"
  by (induction ys) auto

lemma sorted_insert_desc:
  assumes "strict_weak_order cmp"
  shows "sorted_wrt (\<lambda>a b. \<not> cmp a b) ys \<Longrightarrow> sorted_wrt (\<lambda>a b. \<not> cmp a b) (insert_desc cmp x ys)"
proof (induction ys)
  case Nil
  show ?case by simp
next
  case (Cons y ys)
  show ?case
  proof (cases "cmp x y")
    case True
    from assms True have "\<not> cmp y x" unfolding strict_weak_order_def by blast
    with Cons True show ?thesis by (auto simp: set_insert_desc)
  next
    case False
    have "\<And>z. z \<in> set ys \<Longrightarrow> \<not> cmp x z"
    proof -
      fix z assume "z \<in> set ys"
      with Cons.prems have "\<not> cmp y z" by simp
      from swo_negtrans [OF assms False this] show "\<not> cmp x z" .
    qed
    with Cons.prems False show ?thesis by auto
  qed
qed

lemma sorted_sort_desc:
  "strict_weak_order cmp \<Longrightarrow> sorted_wrt (\<lambda>a b. \<not> cmp a b) (sort_desc cmp v)"
  by (induction v) (auto simp: sort_desc_def sorted_insert_desc)

lemma sorted_is_heap: "sorted_wrt (\<lambda>a b. \<not> cmp a b) v \<Longrightarrow> is_heap cmp v"
  unfolding is_heap_def
proof (intro allI impI)
  fix i assume s: "sorted_wrt (\<lambda>a b. \<not> cmp a b) v" and i: "0 < i \<and> i < length v"
  then have "(i - 1) div 2 < i" by arith
  from sorted_wrt_nth_less [OF s this] i show "\<not> cmp (v ! ((i - 1) div 2)) (v ! i)" by simp
qed

lemma sort_desc_push_heap: "push_heap_spec sort_desc"
  unfolding push_heap_spec_def by (simp add: sorted_is_heap sorted_sort_desc mset_sort_desc)

lemma sort_desc_make_heap: "make_heap_spec sort_desc"
  unfolding make_heap_spec_def by (simp add: sorted_is_heap sorted_sort_desc mset_sort_desc)

lemma pop_sorted_pop_heap: "pop_heap_spec pop_sorted"
  unfolding pop_heap_spec_def
proof (intro allI impI)
  fix cmp v
  assume a: "strict_weak_order cmp \<and> v \<noteq> [] \<and> is_heap cmp v"
  then obtain x xs where v: "v = x # xs" by (cases v) auto
  with a show "pop_sorted cmp v \<noteq> [] \<and> last (pop_sorted cmp v) = hd v \<and>
        is_heap cmp (butlast (pop_sorted cmp v)) \<and> mset (pop_sorted cmp v) = mset v"
    by (simp add: pop_sorted_def sorted_is_heap sorted_sort_desc mset_sort_desc)
qed


theorem open_list_pop_least_and_push_semantics_witness:
  "(case open_run sort_desc pop_sorted sort_desc id (example_nodes, empty_open)
            [PushOrUpdate 0, PushOrUpdate 1, PushOrUpdate 2] of
      Inl e \<Rightarrow> False
    | Inr (st, ol) \<Rightarrow>
        nodes_heap ol = [1, 0] \<and> costG (st 0) = 2 \<and>
        (case OpenList_pop pop_sorted id st ol of
           Inl e \<Rightarrow> False
         | Inr (v, ol') \<Rightarrow> v = 1 \<and> nodes_heap ol' = [0] \<and> costF (st v) = 2 \<and> costF (st 0) = 2))"
proof -
  have e: "(case open_run sort_desc pop_sorted sort_desc id (example_nodes, empty_open)
            [PushOrUpdate 0, PushOrUpdate 1, PushOrUpdate 2] of
      Inl e \<Rightarrow> False
    | Inr (st, ol) \<Rightarrow>
        nodes_heap ol = [1, 0] \<and> costG (st 0) = 2 \<and>
        (case OpenList_pop pop_sorted id st ol of
           Inl e \<Rightarrow> False
         | Inr (v, ol') \<Rightarrow> v = 1 \<and> nodes_heap ol' = [0] \<and> costF (st v) = 2 \<and> costF (st 0) = 2))"
    by (simp add: example_nodes_def empty_open_def pushOrUpdate_def OpenList_pop_def Let_def
        sort_desc_def pop_sorted_def HigherCost_def costF_def)
  then obtain st ol
    where run: "open_run sort_desc pop_sorted sort_desc id (example_nodes, empty_open)
                  [PushOrUpdate 0, PushOrUpdate 1, PushOrUpdate 2] = Inr (st, ol)"
    by (auto split: sum.splits)
  from open_list_pop_least_and_push_semantics
         [OF sort_desc_push_heap pop_sorted_pop_heap sort_desc_make_heap run] e
  show ?thesis by blast
qed

end
